theory Spec2Isabelle
  imports Main
begin

unbundle bit_operations_syntax

section \<open>The coalesced hash map of TurboKit (hash\_map.h)\<close>

text \<open>
  The container \<open>turbokit::HashMap\<close> keeps two parallel arrays of \<open>bucket_count\<close>
  slots: \<open>main_table\<close> (one home slot per bucket, with the length of the probe span its
  overflow entries use) and \<open>collision_table\<close> (overflow slots, each tagged with the
  bucket that owns it).  The embedding below follows the C++ function by function.

  Conventions of the embedding.
  \<^item> \<open>size_t\<close> values are natural numbers.  The sentinel \<open>invalid_marker\<close> is
    \<open>(size_t)-1 = 2^64 - 1\<close>; a decrement that can wrap is written \<open>size_dec\<close>.
    Sums such as \<open>bucket_idx + chain_len\<close> are only ever used under \<open>& mask\<close>, where the
    wrap-around modulo \<open>2^64\<close> is invisible because the mask is \<open>2^e - 1\<close>.
  \<^item> A pointer to an array is an \<open>option\<close> (\<open>None\<close> is \<open>nullptr\<close>); a pointer to the
    \<open>value\<close> member of a slot is a \<open>value_ref\<close>.
  \<^item> Storage that the C++ leaves uninitialised (fresh arrays) holds the arbitrary
    contents \<open>raw_key\<close>, \<open>raw_val\<close> of the configuration; a destroyed object
    leaves its bytes behind.  Every theorem holds for all such contents.
  \<^item> The template parameters are a configuration: the hash function, and
    \<open>sizeof(MainEntry)\<close>, which the growth policy divides by.  Keys are compared with
    HOL equality (\<open>std::equal_to\<close>).
  \<^item> \<open>iterator::operator*\<close> does not read the \<open>key\<close> member of a slot: it reads a
    \<open>KeyType\<close> at \<open>(char *)value_ptr - sizeof(KeyType)\<close>.  That is the key when
    \<open>value\<close> lies directly behind \<open>key\<close> in the entry; otherwise the bytes read are
    padding.  \<open>key_before_value\<close> of the configuration is what this read yields in a
    slot whose \<open>key\<close> member is \<open>k\<close>.
  \<^item> Reads and writes outside an array are undefined behaviour in C++; here \<open>xs ! i\<close>
    is unspecified and \<open>xs[i := v]\<close> does nothing there.  All theorems are about
    tables in which every access is in range.
\<close>

subsection \<open>Machine integers\<close>

definition size_max :: nat where
  "size_max = 2 ^ 64 - 1"

definition invalid_marker :: nat where
  "invalid_marker = size_max"

definition isInvalid :: "nat \<Rightarrow> bool" where
  "isInvalid v \<longleftrightarrow> v = invalid_marker"

text \<open>\<open>x - 1\<close> on \<open>size_t\<close>.\<close>

definition size_dec :: "nat \<Rightarrow> nat" where
  "size_dec x = (if x = 0 then size_max else x - 1)"

subsection \<open>Data\<close>

record ('k, 'v) MainEntry =
  mkey :: 'k
  mval :: 'v
  chain_length :: nat

record ('k, 'v) CollisionEntry =
  ckey :: 'k
  cval :: 'v
  main_index :: nat

record ('k, 'v) HashMap =
  bucket_count :: nat
  element_count :: nat
  main_table :: "('k, 'v) MainEntry list option"
  collision_table :: "('k, 'v) CollisionEntry list option"

datatype value_ref = MainValue nat | CollisionValue nat

record iterator =
  bucket_index :: nat
  collision_index :: nat
  value_ptr :: "value_ref option"

record ('k, 'v) config =
  hash_function :: "'k \<Rightarrow> nat"
  sizeof_MainEntry :: nat
  raw_key :: 'k
  raw_val :: 'v
  key_before_value :: "'k \<Rightarrow> 'k"

datatype error = Abort | RangeError

text \<open>The default-constructed map: no storage, no elements.\<close>

definition empty_map :: "('k, 'v) HashMap" where
  "empty_map = \<lparr>bucket_count = 0, element_count = 0, main_table = None, collision_table = None\<rparr>"

abbreviation mainT :: "('k, 'v) HashMap \<Rightarrow> ('k, 'v) MainEntry list" where
  "mainT t \<equiv> the (main_table t)"

abbreviation collT :: "('k, 'v) HashMap \<Rightarrow> ('k, 'v) CollisionEntry list" where
  "collT t \<equiv> the (collision_table t)"

text \<open>\<open>mask = bucket_count - 1\<close>, computed on \<open>size_t\<close>.\<close>

definition mask_of :: "('k, 'v) HashMap \<Rightarrow> nat" where
  "mask_of t = size_dec (bucket_count t)"

definition size_hm :: "('k, 'v) HashMap \<Rightarrow> nat" where
  "size_hm t = element_count t"

definition get_bucket_count :: "('k, 'v) HashMap \<Rightarrow> nat" where
  "get_bucket_count t = bucket_count t"

definition empty_hm :: "('k, 'v) HashMap \<Rightarrow> bool" where
  "empty_hm t \<longleftrightarrow> element_count t = 0"

subsection \<open>Iterators\<close>

definition end_hm :: iterator where
  "end_hm = \<lparr>bucket_index = 0, collision_index = 0, value_ptr = None\<rparr>"

text \<open>\<open>operator==\<close> compares the value pointers only.\<close>

definition iter_eq :: "iterator \<Rightarrow> iterator \<Rightarrow> bool" where
  "iter_eq a b \<longleftrightarrow> value_ptr a = value_ptr b"

text \<open>
  \<open>operator++\<close>, second branch: the iterator stands in the collision table and moves to the
  next slot whose \<open>main_index\<close> is valid.  The source tests
  \<open>collision_index == bucket_count - 1\<close>; for an index inside the array this is
  \<open>bucket_count \<le> collision_index + 1\<close>, which is what makes the recursion total.
\<close>

function incr_collision ::
  "('k, 'v) CollisionEntry list \<Rightarrow> nat \<Rightarrow> iterator \<Rightarrow> iterator" where
  "incr_collision ct bc it =
     (if bc \<le> collision_index it + 1 then it\<lparr>value_ptr := None\<rparr>
      else
        let it' = it\<lparr>collision_index := collision_index it + 1,
                      value_ptr := Some (CollisionValue (collision_index it + 1))\<rparr>
        in if isInvalid (main_index (ct ! collision_index it')) then incr_collision ct bc it'
           else it')"
  by pat_completeness auto
termination
  by (relation "measure (\<lambda>(ct, bc, it). bc - collision_index it)") auto

text \<open>
  \<open>operator++\<close>, first branch: the iterator stands in the main table.  Past the last
  bucket it enters the collision table at index 0 (and, if that slot is empty, increments
  again, now in the second branch).
\<close>

function incr_main ::
  "('k, 'v) MainEntry list \<Rightarrow> ('k, 'v) CollisionEntry list \<Rightarrow> nat \<Rightarrow> iterator \<Rightarrow> iterator" where
  "incr_main mt ct bc it =
     (if bc \<le> bucket_index it + 1 then
        let it' = it\<lparr>bucket_index := invalid_marker, collision_index := 0,
                      value_ptr := Some (CollisionValue 0)\<rparr>
        in if \<not> isInvalid (main_index (ct ! 0)) then it' else incr_collision ct bc it'
      else
        let it' = it\<lparr>bucket_index := bucket_index it + 1,
                      value_ptr := Some (MainValue (bucket_index it + 1))\<rparr>
        in if isInvalid (chain_length (mt ! bucket_index it')) then incr_main mt ct bc it'
           else it')"
  by pat_completeness auto
termination
  by (relation "measure (\<lambda>(mt, ct, bc, it). bc - bucket_index it)") auto

definition increment :: "('k, 'v) HashMap \<Rightarrow> iterator \<Rightarrow> iterator" where
  "increment t it =
     (if isInvalid (collision_index it) then incr_main (mainT t) (collT t) (bucket_count t) it
      else incr_collision (collT t) (bucket_count t) it)"

text \<open>\<open>begin()\<close>: the two \<open>for\<close> loops are searches for the first valid slot.\<close>

fun first_valid_main :: "('k, 'v) MainEntry list \<Rightarrow> nat \<Rightarrow> nat \<Rightarrow> nat option" where
  "first_valid_main mt i 0 = None"
| "first_valid_main mt i (Suc r) =
     (if \<not> isInvalid (chain_length (mt ! i)) then Some i else first_valid_main mt (i + 1) r)"

fun first_valid_collision :: "('k, 'v) CollisionEntry list \<Rightarrow> nat \<Rightarrow> nat \<Rightarrow> nat option" where
  "first_valid_collision ct i 0 = None"
| "first_valid_collision ct i (Suc r) =
     (if \<not> isInvalid (main_index (ct ! i)) then Some i else first_valid_collision ct (i + 1) r)"

definition begin_hm :: "('k, 'v) HashMap \<Rightarrow> iterator" where
  "begin_hm t =
     (if main_table t = None then end_hm
      else case first_valid_main (mainT t) 0 (bucket_count t) of
        Some i \<Rightarrow> \<lparr>bucket_index = i, collision_index = invalid_marker, value_ptr = Some (MainValue i)\<rparr>
      | None \<Rightarrow>
          (case first_valid_collision (collT t) 0 (bucket_count t) of
             Some i \<Rightarrow> \<lparr>bucket_index = i, collision_index = i, value_ptr = Some (CollisionValue i)\<rparr>
           | None \<Rightarrow> end_hm))"

subsection \<open>Lookup\<close>

text \<open>
  \<open>find_in_collision_chain\<close>: the loop visits \<open>chain_len\<close> collision slots starting at the
  bucket's own index, wrapping at the end of the array, and returns at the first slot that
  is owned by the bucket and holds the key.  The source unrolls the loop four times
  (a \<open>switch\<close> on the remaining length that falls through its cases); \<open>chain_scan\<close> is
  the loop with one check per step: \<open>cur\<close> is \<open>current_ptr - collision_table\<close>,
  \<open>cidx\<close> the running \<open>collision_idx\<close>, the last argument the remaining \<open>chain_len\<close>.
\<close>

fun chain_scan ::
  "('k, 'v) CollisionEntry list \<Rightarrow> nat \<Rightarrow> nat \<Rightarrow> 'k \<Rightarrow> nat \<Rightarrow> nat \<Rightarrow> nat \<Rightarrow> (nat \<times> nat) option" where
  "chain_scan ct bucket_limit bucket_idx k cur cidx 0 = None"
| "chain_scan ct bucket_limit bucket_idx k cur cidx (Suc chain_len) =
     (if main_index (ct ! cur) = bucket_idx \<and> ckey (ct ! cur) = k then Some (cur, cidx)
      else chain_scan ct bucket_limit bucket_idx k
             (if cur + 1 = bucket_limit then 0 else cur + 1) (cidx + 1) chain_len)"

definition find_in_collision_chain :: "('k, 'v) HashMap \<Rightarrow> nat \<Rightarrow> 'k \<Rightarrow> iterator" where
  "find_in_collision_chain t bucket_idx k =
     (let chain_len = chain_length (mainT t ! bucket_idx);
          end_collision_idx = (bucket_idx + chain_len) AND mask_of t
      in case chain_scan (collT t) (bucket_count t) bucket_idx k bucket_idx bucket_idx chain_len of
           Some (cur, cidx) \<Rightarrow>
             \<lparr>bucket_index = bucket_idx, collision_index = cidx AND mask_of t,
              value_ptr = Some (CollisionValue cur)\<rparr>
         | None \<Rightarrow>
             \<lparr>bucket_index = bucket_idx, collision_index = end_collision_idx, value_ptr = None\<rparr>)"

definition find_hm :: "('k, 'v) config \<Rightarrow> ('k, 'v) HashMap \<Rightarrow> 'k \<Rightarrow> iterator" where
  "find_hm cfg t k =
     (if main_table t = None then end_hm
      else
        let bucket_idx = hash_function cfg k AND mask_of t;
            main_entry = mainT t ! bucket_idx
        in if isInvalid (chain_length main_entry)
           then \<lparr>bucket_index = bucket_idx, collision_index = invalid_marker, value_ptr = None\<rparr>
           else if mkey main_entry = k
           then \<lparr>bucket_index = bucket_idx, collision_index = invalid_marker,
                 value_ptr = Some (MainValue bucket_idx)\<rparr>
           else if chain_length main_entry = 0
           then \<lparr>bucket_index = bucket_idx, collision_index = bucket_idx, value_ptr = None\<rparr>
           else find_in_collision_chain t bucket_idx k)"

text \<open>
  The \<open>key\<close> and \<open>value\<close> members of the slot that the value pointer of an iterator
  names; \<open>None\<close> for a null pointer.
\<close>

definition slot_entry :: "('k, 'v) HashMap \<Rightarrow> iterator \<Rightarrow> ('k \<times> 'v) option" where
  "slot_entry t it =
     (case value_ptr it of
        None \<Rightarrow> None
      | Some (MainValue i) \<Rightarrow> Some (mkey (mainT t ! i), mval (mainT t ! i))
      | Some (CollisionValue j) \<Rightarrow> Some (ckey (collT t ! j), cval (collT t ! j)))"

text \<open>
  \<open>operator*\<close>: the pair of \<open>*(KeyType *)((char *)value_ptr - sizeof(KeyType))\<close> and
  \<open>*value_ptr\<close>.  The second component is the \<open>value\<close> member of the slot, the first
  is what lies in the \<open>sizeof(KeyType)\<close> bytes before it.
\<close>

definition deref :: "('k, 'v) config \<Rightarrow> ('k, 'v) HashMap \<Rightarrow> iterator \<Rightarrow> ('k \<times> 'v) option" where
  "deref cfg t it =
     (case slot_entry t it of
        None \<Rightarrow> None
      | Some (k, v) \<Rightarrow> Some (key_before_value cfg k, v))"

text \<open>
  What a caller reads through \<open>find(key)->second\<close>, which is \<open>*value_ptr\<close>, the \<open>value\<close>
  member of the slot; \<open>None\<close> when \<open>find\<close> returns the end.
\<close>

definition lookup :: "('k, 'v) config \<Rightarrow> ('k, 'v) HashMap \<Rightarrow> 'k \<Rightarrow> 'v option" where
  "lookup cfg t k = map_option snd (slot_entry t (find_hm cfg t k))"

subsection \<open>Removal\<close>

text \<open>
  The backward walk that closes \<open>remove\<close>: shrink \<open>chain_len\<close> while it is non-zero and
  the slot at offset \<open>chain_len - 1\<close> is not owned by the bucket.
\<close>

fun walk_back :: "('k, 'v) CollisionEntry list \<Rightarrow> nat \<Rightarrow> nat \<Rightarrow> nat \<Rightarrow> nat" where
  "walk_back ct msk bucket_idx 0 = 0"
| "walk_back ct msk bucket_idx (Suc chain_len) =
     (if main_index (ct ! ((bucket_idx + chain_len) AND msk)) \<noteq> bucket_idx
      then walk_back ct msk bucket_idx chain_len
      else Suc chain_len)"

definition remove_iter :: "('k, 'v) HashMap \<Rightarrow> iterator \<Rightarrow> ('k, 'v) HashMap \<times> iterator" where
  "remove_iter t iter =
     (let msk = mask_of t;
          bucket_idx = bucket_index iter;
          collision_idx = collision_index iter;
          count' = size_dec (element_count t);
          mt = mainT t;
          ct = collT t
      in if isInvalid collision_idx then
           let main_entry = mt ! bucket_idx;
               chain_len = chain_length main_entry
           in if chain_len \<noteq> 0 then
                let chain_len1 = chain_len - 1;
                    index = (bucket_idx + chain_len1) AND msk;
                    collision_entry = ct ! index;
                    ct' = ct[index := collision_entry\<lparr>main_index := invalid_marker\<rparr>];
                    chain_len2 = walk_back ct' msk bucket_idx chain_len1;
                    mt' = mt[bucket_idx := \<lparr>mkey = ckey collision_entry, mval = cval collision_entry,
                                            chain_length = chain_len2\<rparr>]
                in (t\<lparr>element_count := count', main_table := Some mt',
                       collision_table := Some ct'\<rparr>, iter)
              else
                let iter' = increment t iter;
                    mt' = mt[bucket_idx := main_entry\<lparr>chain_length := invalid_marker\<rparr>]
                in (t\<lparr>element_count := count', main_table := Some mt'\<rparr>, iter')
         else
           let collision_entry = ct ! collision_idx;
               bucket_idx = (if isInvalid bucket_idx then main_index collision_entry else bucket_idx);
               main_entry = mt ! bucket_idx;
               chain_len = size_dec (chain_length main_entry);
               last_index = (bucket_idx + chain_len) AND msk;
               last_entry = ct ! last_index;
               iter' = (if last_index = collision_idx then increment t iter else iter);
               ct1 = (if last_index = collision_idx then ct
                      else ct[collision_idx :=
                             collision_entry\<lparr>ckey := ckey last_entry, cval := cval last_entry\<rparr>]);
               ct2 = ct1[last_index := (ct1 ! last_index)\<lparr>main_index := invalid_marker\<rparr>];
               chain_len' = walk_back ct2 msk bucket_idx chain_len;
               mt' = mt[bucket_idx := main_entry\<lparr>chain_length := chain_len'\<rparr>]
           in (t\<lparr>element_count := count', main_table := Some mt',
                  collision_table := Some ct2\<rparr>, iter'))"

text \<open>\<open>remove(key)\<close>: a \<open>void\<close> function; the model returns the table after the call.\<close>

definition remove_key :: "('k, 'v) config \<Rightarrow> ('k, 'v) HashMap \<Rightarrow> 'k \<Rightarrow> ('k, 'v) HashMap" where
  "remove_key cfg t k =
     (let iter = find_hm cfg t k
      in if \<not> iter_eq iter end_hm then fst (remove_iter t iter) else t)"

subsection \<open>Insertion and growth\<close>

text \<open>
  The probe of \<open>try_insert\<close>: \<open>while (!isInvalid(collision_table[index].main_index))\<close>.
  It ends only at an empty slot; the last argument bounds the steps by the number of slots,
  after which the walk would repeat itself for ever (\<open>None\<close>).
\<close>

fun probe ::
  "('k, 'v) CollisionEntry list \<Rightarrow> nat \<Rightarrow> nat \<Rightarrow> nat \<Rightarrow> nat \<Rightarrow> (nat \<times> nat) option" where
  "probe ct msk index chain_len 0 = None"
| "probe ct msk index chain_len (Suc steps) =
     (if \<not> isInvalid (main_index (ct ! index))
      then probe ct msk ((index + 1) AND msk) (chain_len + 1) steps
      else Some (index, chain_len))"

text \<open>
  The doubling loop of \<open>reserve\<close>.  \<open>reserve\<close> enters it with \<open>bucket_limit \<ge> 1\<close>; the
  guard \<open>bucket_limit \<noteq> 0\<close> only makes the definition total.
\<close>

function bucket_limit_loop :: "nat \<Rightarrow> nat \<Rightarrow> nat" where
  "bucket_limit_loop bucket_limit n =
     (if bucket_limit < n \<and> bucket_limit \<noteq> 0 then bucket_limit_loop (bucket_limit * 2) n
      else bucket_limit)"
  by pat_completeness auto
termination
  by (relation "measure (\<lambda>(bucket_limit, n). n - bucket_limit)") auto

text \<open>The fresh arrays of \<open>resize_table\<close>, every slot marked empty.\<close>

definition fresh_table :: "('k, 'v) config \<Rightarrow> nat \<Rightarrow> ('k, 'v) HashMap" where
  "fresh_table cfg n =
     \<lparr>bucket_count = n, element_count = 0,
      main_table = Some (replicate n
        \<lparr>mkey = raw_key cfg, mval = raw_val cfg, chain_length = invalid_marker\<rparr>),
      collision_table = Some (replicate n
        \<lparr>ckey = raw_key cfg, cval = raw_val cfg, main_index = invalid_marker\<rparr>)\<rparr>"

definition main_entries :: "('k, 'v) MainEntry list \<Rightarrow> ('k \<times> 'v) list" where
  "main_entries mt = map (\<lambda>e. (mkey e, mval e)) (filter (\<lambda>e. \<not> isInvalid (chain_length e)) mt)"

definition collision_entries :: "('k, 'v) CollisionEntry list \<Rightarrow> ('k \<times> 'v) list" where
  "collision_entries ct = map (\<lambda>e. (ckey e, cval e)) (filter (\<lambda>e. \<not> isInvalid (main_index e)) ct)"

text \<open>The two stores of \<open>try_insert\<close>: into the home slot, and into an overflow slot.\<close>

definition store_main ::
  "('k, 'v) HashMap \<Rightarrow> nat \<Rightarrow> 'k \<Rightarrow> 'v \<Rightarrow> ('k, 'v) HashMap \<times> iterator \<times> bool" where
  "store_main t b k v =
     (t\<lparr>element_count := element_count t + 1,
        main_table := Some ((mainT t)[b := \<lparr>mkey = k, mval = v, chain_length = 0\<rparr>])\<rparr>,
      \<lparr>bucket_index = b, collision_index = invalid_marker, value_ptr = Some (MainValue b)\<rparr>,
      True)"

definition store_collision ::
  "('k, 'v) HashMap \<Rightarrow> nat \<Rightarrow> nat \<Rightarrow> nat \<Rightarrow> 'k \<Rightarrow> 'v \<Rightarrow> ('k, 'v) HashMap \<times> iterator \<times> bool" where
  "store_collision t b index chain_len k v =
     (t\<lparr>element_count := element_count t + 1,
        main_table := Some ((mainT t)[b := (mainT t ! b)\<lparr>chain_length := chain_len\<rparr>]),
        collision_table := Some ((collT t)[index := \<lparr>ckey = k, cval = v, main_index = b\<rparr>])\<rparr>,
      \<lparr>bucket_index = b, collision_index = index, value_ptr = Some (CollisionValue index)\<rparr>,
      True)"

text \<open>
  \<open>try_insert\<close>, \<open>reserve\<close> and \<open>resize_table\<close> call each other: growth re-inserts every
  entry with \<open>try_insert\<close>, which may grow the new table again.  The first argument after
  the configuration is fuel: it bounds the depth of growth, and \<open>None\<close> means that the
  fuel ran out before the call returned.  \<open>try_insert_at\<close> is the code from the point
  where the bucket's main entry is read (after the label \<open>resize\<close> has come back),
  \<open>try_insert_resize\<close> the code at the label \<open>resize\<close>; \<open>expand\<close> sets
  \<open>new_bucket_count = bucket_count + 1\<close> and jumps there.  \<open>reinsert\<close> is each of the two
  loops of \<open>resize_table\<close> over the old arrays.  \<open>resize_table\<close> is \<open>noexcept\<close>: an
  exception that reaches it terminates the process.
\<close>

function (sequential) try_insert ::
    "('k, 'v) config \<Rightarrow> nat \<Rightarrow> ('k, 'v) HashMap \<Rightarrow> 'k \<Rightarrow> 'v
      \<Rightarrow> (error + ('k, 'v) HashMap \<times> iterator \<times> bool) option"
  and try_insert_at ::
    "('k, 'v) config \<Rightarrow> nat \<Rightarrow> ('k, 'v) HashMap \<Rightarrow> 'k \<Rightarrow> 'v \<Rightarrow> iterator
      \<Rightarrow> (error + ('k, 'v) HashMap \<times> iterator \<times> bool) option"
  and try_insert_resize ::
    "('k, 'v) config \<Rightarrow> nat \<Rightarrow> ('k, 'v) HashMap \<Rightarrow> 'k \<Rightarrow> 'v \<Rightarrow> nat
      \<Rightarrow> (error + ('k, 'v) HashMap \<times> iterator \<times> bool) option"
  and reserve ::
    "('k, 'v) config \<Rightarrow> nat \<Rightarrow> ('k, 'v) HashMap \<Rightarrow> nat \<Rightarrow> (error + ('k, 'v) HashMap) option"
  and resize_table ::
    "('k, 'v) config \<Rightarrow> nat \<Rightarrow> ('k, 'v) HashMap \<Rightarrow> nat \<Rightarrow> (error + ('k, 'v) HashMap) option"
  and reinsert ::
    "('k, 'v) config \<Rightarrow> nat \<Rightarrow> ('k, 'v) HashMap \<Rightarrow> ('k \<times> 'v) list
      \<Rightarrow> (error + ('k, 'v) HashMap) option"
where
  "try_insert cfg f t k v =
     (case (if main_table t = None then reserve cfg f t 16 else Some (Inr t)) of
        None \<Rightarrow> None
      | Some (Inl e) \<Rightarrow> Some (Inl e)
      | Some (Inr t1) \<Rightarrow>
          let iter = find_hm cfg t1 k
          in if value_ptr iter \<noteq> None then Some (Inr (t1, iter, False))
             else if bucket_count t1 < element_count t1 + 1
             then try_insert_resize cfg f t1 k v (element_count t1 + 1)
             else try_insert_at cfg f t1 k v iter)"
| "try_insert_at cfg f t k v iter =
     (if isInvalid (collision_index iter) then Some (Inr (store_main t (bucket_index iter) k v))
      else if bucket_count t < 1048576 div sizeof_MainEntry cfg
              \<and> bucket_count t < element_count t * 4
      then try_insert_resize cfg f t k v (bucket_count t + 1)
      else
        case probe (collT t) (mask_of t) (collision_index iter)
               (chain_length (mainT t ! bucket_index iter) + 1) (bucket_count t) of
          None \<Rightarrow> None
        | Some (index, chain_len) \<Rightarrow>
            if (4 \<le> chain_len \<and> bucket_count t < 4194304 div sizeof_MainEntry cfg)
               \<or> bucket_count t div 2 \<le> chain_len
            then try_insert_resize cfg f t k v (bucket_count t + 1)
            else Some (Inr (store_collision t (bucket_index iter) index chain_len k v)))"
| "try_insert_resize cfg 0 t k v new_bucket_count = None"
| "try_insert_resize cfg (Suc f) t k v new_bucket_count =
     (case reserve cfg f t new_bucket_count of
        None \<Rightarrow> None
      | Some (Inl e) \<Rightarrow> Some (Inl e)
      | Some (Inr t') \<Rightarrow> try_insert_at cfg f t' k v (find_hm cfg t' k))"
| "reserve cfg f t n =
     (if size_max div 2 \<le> n then Some (Inl RangeError)
      else resize_table cfg f t
             (bucket_limit_loop (if bucket_count t = 0 then 1 else bucket_count t) n))"
| "resize_table cfg 0 t new_bucket_count = None"
| "resize_table cfg (Suc f) t new_bucket_count =
     (if new_bucket_count AND size_dec new_bucket_count \<noteq> 0 then Some (Inl Abort)
      else
        case main_table t of
          None \<Rightarrow> Some (Inr (fresh_table cfg new_bucket_count))
        | Some old_main_table \<Rightarrow>
            (case reinsert cfg f (fresh_table cfg new_bucket_count) (main_entries old_main_table) of
               None \<Rightarrow> None
             | Some (Inl e) \<Rightarrow> Some (Inl Abort)
             | Some (Inr t1) \<Rightarrow>
                 (case reinsert cfg f t1 (collision_entries (collT t)) of
                    None \<Rightarrow> None
                  | Some (Inl e) \<Rightarrow> Some (Inl Abort)
                  | Some (Inr t2) \<Rightarrow> Some (Inr t2))))"
| "reinsert cfg f t [] = Some (Inr t)"
| "reinsert cfg f t ((k, v) # kvs) =
     (case try_insert cfg f t k v of
        None \<Rightarrow> None
      | Some (Inl e) \<Rightarrow> Some (Inl e)
      | Some (Inr (t', r)) \<Rightarrow> reinsert cfg f t' kvs)"
  by pat_completeness auto
termination
  apply (relation "inv_image (less_than <*lex*> less_than <*lex*> less_than)
    (\<lambda>x. case x of
       Inl (Inl (cfg, f, t, k, v)) \<Rightarrow> (f, 3::nat, 0::nat)
     | Inl (Inr (Inl (cfg, f, t, k, v, it))) \<Rightarrow> (f, 2, 0)
     | Inl (Inr (Inr (cfg, f, t, k, v, n))) \<Rightarrow> (f, 1, 0)
     | Inr (Inl (cfg, f, t, n)) \<Rightarrow> (f, 2, 0)
     | Inr (Inr (Inl (cfg, f, t, n))) \<Rightarrow> (f, 1, 0)
     | Inr (Inr (Inr (cfg, f, t, kvs))) \<Rightarrow> (f, 4, length kvs))")
  apply (rule wf_inv_image, intro wf_lex_prod wf_less_than)
  apply simp_all
  done

subsection \<open>Clearing and copying\<close>

text \<open>
  \<open>clear()\<close>: \<open>while (iter != end_iter) iter = remove(iter)\<close>.  The first argument bounds
  the number of iterations (\<open>None\<close>: the loop has not ended within it).
\<close>

fun clear_loop :: "nat \<Rightarrow> ('k, 'v) HashMap \<Rightarrow> iterator \<Rightarrow> ('k, 'v) HashMap option" where
  "clear_loop 0 t iter = None"
| "clear_loop (Suc f) t iter =
     (if iter_eq iter end_hm then Some t
      else case remove_iter t iter of (t', iter') \<Rightarrow> clear_loop f t' iter')"

definition clear_hm :: "nat \<Rightarrow> ('k, 'v) HashMap \<Rightarrow> ('k, 'v) HashMap option" where
  "clear_hm f t = clear_loop f t (begin_hm t)"

text \<open>
  \<open>operator=(const HashMap &other)\<close>: \<open>clear()\<close>, then \<open>insert(entry)\<close> for every entry
  of \<open>other\<close> in iteration order (\<open>insert(const pair&)\<close> is \<open>emplace\<close>, which is
  \<open>try_insert\<close>).  The range-based \<open>for\<close> reads each entry through \<open>operator*\<close>, and
  ends when the value pointer is null.  The target and \<open>other\<close> are distinct objects here.
\<close>

fun assign_loop ::
  "('k, 'v) config \<Rightarrow> nat \<Rightarrow> ('k, 'v) HashMap \<Rightarrow> ('k, 'v) HashMap \<Rightarrow> iterator
    \<Rightarrow> (error + ('k, 'v) HashMap) option" where
  "assign_loop cfg 0 this other it = None"
| "assign_loop cfg (Suc f) this other it =
     (case deref cfg other it of
        None \<Rightarrow> Some (Inr this)
      | Some (k, v) \<Rightarrow>
          (case try_insert cfg f this k v of
             None \<Rightarrow> None
           | Some (Inl e) \<Rightarrow> Some (Inl e)
           | Some (Inr (this', r)) \<Rightarrow> assign_loop cfg f this' other (increment other it)))"

definition copy_assign ::
  "('k, 'v) config \<Rightarrow> nat \<Rightarrow> ('k, 'v) HashMap \<Rightarrow> ('k, 'v) HashMap
    \<Rightarrow> (error + ('k, 'v) HashMap) option" where
  "copy_assign cfg f this other =
     (case clear_hm f this of
        None \<Rightarrow> None
      | Some this' \<Rightarrow> assign_loop cfg f this' other (begin_hm other))"

text \<open>\<open>HashMap(const HashMap &other) { *this = other; }\<close> on the default-initialised members.\<close>

definition copy_construct ::
  "('k, 'v) config \<Rightarrow> nat \<Rightarrow> ('k, 'v) HashMap \<Rightarrow> (error + ('k, 'v) HashMap) option" where
  "copy_construct cfg f other = copy_assign cfg f empty_map other"

text \<open>
  \<open>HashMap moved(std::move(original))\<close>.  The class declares a destructor, a copy
  constructor and a copy assignment, and no move constructor, so none is generated and the
  rvalue binds to \<open>const HashMap &\<close>: the copy constructor runs, and \<open>original\<close>, which
  it only reads, is what it was.  The result is the new object and the source after the call.
\<close>

definition move_construct ::
  "('k, 'v) config \<Rightarrow> nat \<Rightarrow> ('k, 'v) HashMap
    \<Rightarrow> (error + ('k, 'v) HashMap \<times> ('k, 'v) HashMap) option" where
  "move_construct cfg f original =
     (case copy_construct cfg f original of
        None \<Rightarrow> None
      | Some (Inl e) \<Rightarrow> Some (Inl e)
      | Some (Inr moved) \<Rightarrow> Some (Inr (moved, original)))"

declare incr_collision.simps [simp del]
declare incr_main.simps [simp del]
declare bucket_limit_loop.simps [simp del]
declare try_insert.simps [simp del]
declare try_insert_at.simps [simp del]
declare reserve.simps [simp del]

subsection \<open>Sequences of operations\<close>

datatype ('k, 'v) operation = Insert 'k 'v | Erase 'k

text \<open>
  One public call on a table: \<open>insert(key, value)\<close> is \<open>try_insert\<close>, \<open>erase\<close> is
  \<open>remove(key)\<close>.  A sequence stops at the first call that does not return normally.
\<close>

definition apply_operation ::
  "('k, 'v) config \<Rightarrow> nat \<Rightarrow> ('k, 'v) HashMap \<Rightarrow> ('k, 'v) operation
    \<Rightarrow> (error + ('k, 'v) HashMap) option" where
  "apply_operation cfg f t x =
     (case x of
        Insert k v \<Rightarrow>
          (case try_insert cfg f t k v of
             None \<Rightarrow> None
           | Some (Inl e) \<Rightarrow> Some (Inl e)
           | Some (Inr (t', r)) \<Rightarrow> Some (Inr t'))
      | Erase k \<Rightarrow> Some (Inr (remove_key cfg t k)))"

fun run_operations ::
  "('k, 'v) config \<Rightarrow> nat \<Rightarrow> ('k, 'v) HashMap \<Rightarrow> ('k, 'v) operation list
    \<Rightarrow> (error + ('k, 'v) HashMap) option" where
  "run_operations cfg f t [] = Some (Inr t)"
| "run_operations cfg f t (x # xs) =
     (case apply_operation cfg f t x of
        None \<Rightarrow> None
      | Some (Inl e) \<Rightarrow> Some (Inl e)
      | Some (Inr t') \<Rightarrow> run_operations cfg f t' xs)"

fun remove_keys :: "('k, 'v) config \<Rightarrow> ('k, 'v) HashMap \<Rightarrow> 'k list \<Rightarrow> ('k, 'v) HashMap" where
  "remove_keys cfg t [] = t"
| "remove_keys cfg t (k # ks) = remove_keys cfg (remove_key cfg t k) ks"

subsection \<open>The representation invariant\<close>

text \<open>A slot is occupied when its marker field is not the sentinel.\<close>

definition mvalid :: "('k, 'v) MainEntry \<Rightarrow> bool" where
  "mvalid e \<longleftrightarrow> \<not> isInvalid (chain_length e)"

definition cvalid :: "('k, 'v) CollisionEntry \<Rightarrow> bool" where
  "cvalid e \<longleftrightarrow> \<not> isInvalid (main_index e)"

text \<open>Both arrays have \<open>n\<close> slots, and \<open>n\<close> is a power of two that fits \<open>size_t\<close>.\<close>

definition shape_ok ::
  "nat \<Rightarrow> ('k, 'v) MainEntry list \<Rightarrow> ('k, 'v) CollisionEntry list \<Rightarrow> bool" where
  "shape_ok n mt ct \<longleftrightarrow> (\<exists>e \<le> 63. n = 2 ^ e) \<and> length mt = n \<and> length ct = n"

text \<open>An occupied main slot holds a key of its own bucket, and its span is shorter than the table.\<close>

definition main_ok :: "('k \<Rightarrow> nat) \<Rightarrow> nat \<Rightarrow> ('k, 'v) MainEntry list \<Rightarrow> bool" where
  "main_ok h n mt \<longleftrightarrow>
     (\<forall>i < n. mvalid (mt ! i) \<longrightarrow> h (mkey (mt ! i)) mod n = i \<and> chain_length (mt ! i) < n)"

text \<open>
  An occupied collision slot \<open>j\<close> names an occupied bucket \<open>b\<close> as its owner; its key hashes
  to \<open>b\<close> and is not the key of the main slot; and \<open>j\<close> lies inside the span of \<open>b\<close>.
\<close>

definition coll_ok ::
  "('k \<Rightarrow> nat) \<Rightarrow> nat \<Rightarrow> ('k, 'v) MainEntry list \<Rightarrow> ('k, 'v) CollisionEntry list \<Rightarrow> bool" where
  "coll_ok h n mt ct \<longleftrightarrow>
     (\<forall>j < n. cvalid (ct ! j) \<longrightarrow>
        main_index (ct ! j) < n \<and> mvalid (mt ! main_index (ct ! j)) \<and>
        h (ckey (ct ! j)) mod n = main_index (ct ! j) \<and>
        ckey (ct ! j) \<noteq> mkey (mt ! main_index (ct ! j)) \<and>
        (j + n - main_index (ct ! j)) mod n < chain_length (mt ! main_index (ct ! j)))"

text \<open>The last slot of a non-empty span is owned by the bucket.\<close>

definition tail_ok ::
  "nat \<Rightarrow> ('k, 'v) MainEntry list \<Rightarrow> ('k, 'v) CollisionEntry list \<Rightarrow> bool" where
  "tail_ok n mt ct \<longleftrightarrow>
     (\<forall>i < n. mvalid (mt ! i) \<and> 0 < chain_length (mt ! i) \<longrightarrow>
        main_index (ct ! ((i + chain_length (mt ! i) - 1) mod n)) = i)"

text \<open>No key is stored in two collision slots.\<close>

definition keys_ok :: "nat \<Rightarrow> ('k, 'v) CollisionEntry list \<Rightarrow> bool" where
  "keys_ok n ct \<longleftrightarrow>
     (\<forall>j < n. \<forall>j' < n. cvalid (ct ! j) \<and> cvalid (ct ! j') \<and> ckey (ct ! j) = ckey (ct ! j')
        \<longrightarrow> j = j')"

text \<open>\<open>element_count\<close> is the number of occupied slots.\<close>

definition count_ok ::
  "nat \<Rightarrow> nat \<Rightarrow> ('k, 'v) MainEntry list \<Rightarrow> ('k, 'v) CollisionEntry list \<Rightarrow> bool" where
  "count_ok c n mt ct \<longleftrightarrow>
     c = card {i. i < n \<and> mvalid (mt ! i)} + card {j. j < n \<and> cvalid (ct ! j)}"

definition table_inv :: "('k, 'v) config \<Rightarrow> ('k, 'v) HashMap \<Rightarrow> bool" where
  "table_inv cfg t \<longleftrightarrow>
     (\<exists>mt ct. main_table t = Some mt \<and> collision_table t = Some ct \<and>
        shape_ok (bucket_count t) mt ct \<and>
        main_ok (hash_function cfg) (bucket_count t) mt \<and>
        coll_ok (hash_function cfg) (bucket_count t) mt ct \<and>
        tail_ok (bucket_count t) mt ct \<and>
        keys_ok (bucket_count t) ct \<and>
        count_ok (element_count t) (bucket_count t) mt ct)"

text \<open>A table before its first allocation.\<close>

definition unallocated :: "('k, 'v) HashMap \<Rightarrow> bool" where
  "unallocated t \<longleftrightarrow> main_table t = None \<and> bucket_count t = 0 \<and> element_count t = 0"

definition table_ok :: "('k, 'v) config \<Rightarrow> ('k, 'v) HashMap \<Rightarrow> bool" where
  "table_ok cfg t \<longleftrightarrow> unallocated t \<or> table_inv cfg t"

text \<open>The key-value pairs a table stores.\<close>

definition entries :: "('k, 'v) HashMap \<Rightarrow> ('k \<times> 'v) set" where
  "entries t =
     (case main_table t of
        None \<Rightarrow> {}
      | Some mt \<Rightarrow> set (main_entries mt) \<union> set (collision_entries (collT t)))"

text \<open>
  A table is dense when every collision slot inside a span is occupied.  Insertion keeps a
  table dense (the probe only passes occupied slots); removal can leave a hole in the span
  of another bucket.
\<close>

definition dense ::
  "nat \<Rightarrow> ('k, 'v) MainEntry list \<Rightarrow> ('k, 'v) CollisionEntry list \<Rightarrow> bool" where
  "dense n mt ct \<longleftrightarrow>
     (\<forall>i < n. mvalid (mt ! i) \<longrightarrow> (\<forall>d < chain_length (mt ! i). cvalid (ct ! ((i + d) mod n))))"

definition table_dense :: "('k, 'v) HashMap \<Rightarrow> bool" where
  "table_dense t \<longleftrightarrow>
     (case main_table t of None \<Rightarrow> True | Some mt \<Rightarrow> dense (bucket_count t) mt (collT t))"

text \<open>What a successful insertion of a new key, and a successful rehash, achieve.\<close>

definition insert_post ::
  "('k, 'v) config \<Rightarrow> ('k, 'v) HashMap \<Rightarrow> 'k \<Rightarrow> 'v \<Rightarrow> ('k, 'v) HashMap \<Rightarrow> bool" where
  "insert_post cfg t k v t' \<longleftrightarrow>
     table_inv cfg t' \<and> entries t' = insert (k, v) (entries t) \<and>
     element_count t' = Suc (element_count t) \<and> bucket_count t \<le> bucket_count t' \<and>
     (table_dense t \<longrightarrow> table_dense t')"

definition rehash_post ::
  "('k, 'v) config \<Rightarrow> ('k, 'v) HashMap \<Rightarrow> ('k, 'v) HashMap \<Rightarrow> bool" where
  "rehash_post cfg t t' \<longleftrightarrow>
     table_inv cfg t' \<and> entries t' = entries t \<and>
     element_count t' = element_count t \<and> bucket_count t \<le> bucket_count t' \<and> table_dense t'"

text \<open>
  The specifications of the six mutually recursive functions, for a given amount of fuel:
  what each returns when it returns normally.
\<close>

definition try_insert_spec :: "('k, 'v) config \<Rightarrow> nat \<Rightarrow> bool" where
  "try_insert_spec cfg f \<longleftrightarrow>
     (\<forall>t k v r. table_ok cfg t \<longrightarrow> try_insert cfg f t k v = Some (Inr r) \<longrightarrow>
        (if k \<in> fst ` entries t then r = (t, find_hm cfg t k, False)
         else insert_post cfg t k v (fst r) \<and> snd (snd r)))"

definition try_insert_at_spec :: "('k, 'v) config \<Rightarrow> nat \<Rightarrow> bool" where
  "try_insert_at_spec cfg f \<longleftrightarrow>
     (\<forall>t k v r. table_inv cfg t \<longrightarrow> k \<notin> fst ` entries t \<longrightarrow>
        try_insert_at cfg f t k v (find_hm cfg t k) = Some (Inr r) \<longrightarrow>
        insert_post cfg t k v (fst r) \<and> snd (snd r))"

definition try_insert_resize_spec :: "('k, 'v) config \<Rightarrow> nat \<Rightarrow> bool" where
  "try_insert_resize_spec cfg f \<longleftrightarrow>
     (\<forall>t k v nb r. table_inv cfg t \<longrightarrow> k \<notin> fst ` entries t \<longrightarrow>
        try_insert_resize cfg f t k v nb = Some (Inr r) \<longrightarrow>
        insert_post cfg t k v (fst r) \<and> snd (snd r) \<and> nb \<le> bucket_count (fst r) \<and>
        table_dense (fst r))"

definition reserve_spec :: "('k, 'v) config \<Rightarrow> nat \<Rightarrow> bool" where
  "reserve_spec cfg f \<longleftrightarrow>
     (\<forall>t n t'. table_ok cfg t \<longrightarrow> reserve cfg f t n = Some (Inr t') \<longrightarrow>
        rehash_post cfg t t' \<and> n \<le> bucket_count t')"

definition resize_table_spec :: "('k, 'v) config \<Rightarrow> nat \<Rightarrow> bool" where
  "resize_table_spec cfg f \<longleftrightarrow>
     (\<forall>t e t'. table_ok cfg t \<longrightarrow> e \<le> 63 \<longrightarrow> bucket_count t \<le> 2 ^ e \<longrightarrow>
        resize_table cfg f t (2 ^ e) = Some (Inr t') \<longrightarrow>
        rehash_post cfg t t' \<and> 2 ^ e \<le> bucket_count t')"

definition reinsert_spec :: "('k, 'v) config \<Rightarrow> nat \<Rightarrow> bool" where
  "reinsert_spec cfg f \<longleftrightarrow>
     (\<forall>t kvs t'. table_inv cfg t \<longrightarrow> distinct (map fst kvs) \<longrightarrow>
        fst ` set kvs \<inter> fst ` entries t = {} \<longrightarrow>
        reinsert cfg f t kvs = Some (Inr t') \<longrightarrow>
        table_inv cfg t' \<and> entries t' = entries t \<union> set kvs \<and>
        element_count t' = element_count t + length kvs \<and>
        bucket_count t \<le> bucket_count t' \<and> (table_dense t \<longrightarrow> table_dense t'))"

text \<open>
  When the six functions return.  \<open>M\<close> bounds the number of elements, and \<open>2 ^ E\<close> is
  a bucket count at which no insertion into a table without holes grows any more: at least
  four times \<open>M\<close> and at least the upper size threshold of the growth policy, and small
  enough for \<open>reserve\<close>.  A table has head room \<open>j\<close> when \<open>j\<close> doublings take its bucket
  count to \<open>2 ^ E\<close>; each level of growth costs two units of fuel.
\<close>

definition grow_bound :: "('k, 'v) config \<Rightarrow> nat \<Rightarrow> nat \<Rightarrow> bool" where
  "grow_bound cfg M E \<longleftrightarrow>
     E \<le> 62 \<and> 4 * M \<le> 2 ^ E \<and> 4194304 div sizeof_MainEntry cfg \<le> 2 ^ E"

definition headroom :: "nat \<Rightarrow> ('k, 'v) HashMap \<Rightarrow> nat \<Rightarrow> bool" where
  "headroom E t j \<longleftrightarrow> 2 ^ E \<le> bucket_count t * 2 ^ j"

definition try_insert_at_returns :: "('k, 'v) config \<Rightarrow> nat \<Rightarrow> nat \<Rightarrow> nat \<Rightarrow> bool" where
  "try_insert_at_returns cfg M E f \<longleftrightarrow>
     (\<forall>t k v j. table_inv cfg t \<longrightarrow> table_dense t \<longrightarrow> k \<notin> fst ` entries t \<longrightarrow>
        element_count t < M \<longrightarrow> element_count t < bucket_count t \<longrightarrow>
        headroom E t j \<longrightarrow> 2 * j \<le> f \<longrightarrow>
        (\<exists>r. try_insert_at cfg f t k v (find_hm cfg t k) = Some (Inr r)))"

definition try_insert_resize_returns :: "('k, 'v) config \<Rightarrow> nat \<Rightarrow> nat \<Rightarrow> nat \<Rightarrow> bool" where
  "try_insert_resize_returns cfg M E f \<longleftrightarrow>
     (\<forall>t k v nb j. table_inv cfg t \<longrightarrow> k \<notin> fst ` entries t \<longrightarrow>
        element_count t < M \<longrightarrow> element_count t < nb \<longrightarrow> bucket_count t < nb \<longrightarrow>
        nb \<le> 2 ^ E \<longrightarrow> headroom E t j \<longrightarrow> 2 * j \<le> f \<longrightarrow>
        (\<exists>r. try_insert_resize cfg f t k v nb = Some (Inr r)))"

definition reserve_returns :: "('k, 'v) config \<Rightarrow> nat \<Rightarrow> nat \<Rightarrow> nat \<Rightarrow> bool" where
  "reserve_returns cfg M E f \<longleftrightarrow>
     (\<forall>t nb j. table_inv cfg t \<longrightarrow> element_count t < M \<longrightarrow> bucket_count t < nb \<longrightarrow>
        nb \<le> 2 ^ E \<longrightarrow> headroom E t j \<longrightarrow> 2 * j \<le> f + 1 \<longrightarrow>
        (\<exists>t'. reserve cfg f t nb = Some (Inr t')))"

definition resize_table_returns :: "('k, 'v) config \<Rightarrow> nat \<Rightarrow> nat \<Rightarrow> nat \<Rightarrow> bool" where
  "resize_table_returns cfg M E f \<longleftrightarrow>
     (\<forall>t e j. table_inv cfg t \<longrightarrow> element_count t < M \<longrightarrow> e \<le> E \<longrightarrow>
        E \<le> e + j \<longrightarrow> 2 * j + 1 \<le> f \<longrightarrow>
        (\<exists>t'. resize_table cfg f t (2 ^ e) = Some (Inr t')))"

definition reinsert_returns :: "('k, 'v) config \<Rightarrow> nat \<Rightarrow> nat \<Rightarrow> nat \<Rightarrow> bool" where
  "reinsert_returns cfg M E f \<longleftrightarrow>
     (\<forall>t kvs j. table_inv cfg t \<longrightarrow> table_dense t \<longrightarrow> distinct (map fst kvs) \<longrightarrow>
        fst ` set kvs \<inter> fst ` entries t = {} \<longrightarrow>
        element_count t + length kvs \<le> M \<longrightarrow> headroom E t j \<longrightarrow> 2 * j \<le> f \<longrightarrow>
        (\<exists>t'. reinsert cfg f t kvs = Some (Inr t')))"

definition try_insert_returns :: "('k, 'v) config \<Rightarrow> nat \<Rightarrow> nat \<Rightarrow> nat \<Rightarrow> bool" where
  "try_insert_returns cfg M E f \<longleftrightarrow>
     (\<forall>t k v j. table_inv cfg t \<longrightarrow> table_dense t \<longrightarrow> element_count t < M \<longrightarrow>
        headroom E t j \<longrightarrow> 2 * j \<le> f \<longrightarrow>
        (\<exists>r. try_insert cfg f t k v = Some (Inr r)))"

subsection \<open>The growth policy\<close>

text \<open>
  The probe that \<open>try_insert\<close> runs for a key that is not stored: it starts at the
  collision index of the cursor that \<open>find\<close> returned, with
  \<open>chain_len = main_entry.chain_length + 1\<close>.  The result is the slot found and the new
  span.
\<close>

definition probe_for :: "('k, 'v) config \<Rightarrow> ('k, 'v) HashMap \<Rightarrow> 'k \<Rightarrow> (nat \<times> nat) option" where
  "probe_for cfg t k =
     (let iter = find_hm cfg t k
      in probe (collT t) (mask_of t) (collision_index iter)
           (chain_length (mainT t ! bucket_index iter) + 1) (bucket_count t))"

text \<open>
  The three triggers as the specification words them, with the thresholds of the code:
  (a) is asked for only on the first collision of the bucket (old span 0).
\<close>

definition claimed_growth_condition :: "('k, 'v) config \<Rightarrow> ('k, 'v) HashMap \<Rightarrow> 'k \<Rightarrow> bool" where
  "claimed_growth_condition cfg t k \<longleftrightarrow>
     (chain_length (mainT t ! (hash_function cfg k mod bucket_count t)) = 0 \<and>
      bucket_count t < 1048576 div sizeof_MainEntry cfg \<and> bucket_count t < 4 * element_count t)
     \<or> (case probe_for cfg t k of
           None \<Rightarrow> False
         | Some (idx, new_span) \<Rightarrow>
             (4 \<le> new_span \<and> bucket_count t < 4194304 div sizeof_MainEntry cfg)
             \<or> bucket_count t div 2 \<le> new_span)"

text \<open>
  The triggers of the code: the table is full; or it is small and below four times the
  live count, whatever the old span of the bucket; or the two tests on the new span.
\<close>

definition growth_condition :: "('k, 'v) config \<Rightarrow> ('k, 'v) HashMap \<Rightarrow> 'k \<Rightarrow> bool" where
  "growth_condition cfg t k \<longleftrightarrow>
     bucket_count t < element_count t + 1
     \<or> (bucket_count t < 1048576 div sizeof_MainEntry cfg \<and> bucket_count t < 4 * element_count t)
     \<or> (case probe_for cfg t k of
           None \<Rightarrow> False
         | Some (idx, new_span) \<Rightarrow>
             (4 \<le> new_span \<and> bucket_count t < 4194304 div sizeof_MainEntry cfg)
             \<or> bucket_count t div 2 \<le> new_span)"

subsection \<open>A concrete instance\<close>

text \<open>
  \<open>HashMap<uint64_t, uint64_t>\<close> with the identity hash of the standard library:
  \<open>sizeof(MainEntry)\<close> is 24, and the value lies directly behind the key.
\<close>

definition cfg_nat :: "(nat, nat) config" where
  "cfg_nat = \<lparr>hash_function = (\<lambda>k. k), sizeof_MainEntry = 24, raw_key = 0, raw_val = 0,
     key_before_value = (\<lambda>k. k)\<rparr>"

text \<open>
  \<open>HashMap<int, std::string>\<close>, the instance of the tests: \<open>sizeof(MainEntry)\<close> is 48.
  The key is at offset 0 and has 4 bytes, the value is at offset 8: the 4 bytes before the
  value are padding, which no constructor writes.  They read as 0 in the zero-filled memory
  that the allocator hands out for the arrays.
\<close>

definition cfg_str :: "(nat, string) config" where
  "cfg_str = \<lparr>hash_function = (\<lambda>k. k), sizeof_MainEntry = 48, raw_key = 0, raw_val = [],
     key_before_value = (\<lambda>k. 0)\<rparr>"

text \<open>
  A degenerate hash function that sends every key to bucket 0, with entries of one
  mebibyte, so that the size thresholds of the growth policy are 1 and 4 buckets.
\<close>

definition cfg_degenerate :: "(nat, nat) config" where
  "cfg_degenerate = \<lparr>hash_function = (\<lambda>k. 0), sizeof_MainEntry = 1048576, raw_key = 0,
     raw_val = 0, key_before_value = (\<lambda>k. k)\<rparr>"

subsection \<open>The tables of the examples\<close>

text \<open>The table that a sequence of calls returns (the empty map if it does not return one).\<close>

definition table_of :: "(error + ('k, 'v) HashMap) option \<Rightarrow> ('k, 'v) HashMap" where
  "table_of r = (case r of Some (Inr t) \<Rightarrow> t | _ \<Rightarrow> empty_map)"

text \<open>Bucket 0 holds key 0 and, in its chain, key 16; five elements in sixteen buckets.\<close>

definition growth_example :: "(nat, nat) HashMap" where
  "growth_example = table_of (run_operations cfg_nat (Suc (Suc 0)) empty_map
     [Insert 0 100, Insert 1 101, Insert 2 102, Insert 3 103, Insert 16 116])"

text \<open>
  Bucket 0 holds key 0 with the chain 16, 32 (collision slots 0 and 1); bucket 3 holds key 3
  with the chain 19 (collision slot 3).
\<close>

definition chain_example :: "(nat, nat) HashMap" where
  "chain_example = table_of (run_operations cfg_nat (Suc (Suc 0)) empty_map
     [Insert 0 100, Insert 16 116, Insert 32 132, Insert 3 103, Insert 19 119])"

text \<open>
  The loop body of \<open>clear()\<close> run twice by a caller: \<open>iter = remove(iter); iter = remove(iter);\<close>
\<close>

definition remove_twice :: "('k, 'v) HashMap \<Rightarrow> iterator \<Rightarrow> ('k, 'v) HashMap \<times> iterator" where
  "remove_twice t iter = (case remove_iter t iter of (t1, iter1) \<Rightarrow> remove_iter t1 iter1)"

text \<open>The maps of the tests \<open>Erase\<close> and \<open>MoveConstruction\<close>.\<close>

definition erase_test_map :: "(nat, string) HashMap" where
  "erase_test_map = table_of (run_operations cfg_str (Suc (Suc 0)) empty_map
     [Insert 1 ''one'', Insert 2 ''two'', Insert 3 ''three''])"

definition move_test_original :: "(nat, string) HashMap" where
  "move_test_original = table_of (run_operations cfg_str (Suc (Suc 0)) empty_map
     [Insert 1 ''one'', Insert 2 ''two''])"

lemma and_size_dec_pow2: "x AND size_dec (2 ^ e) = x mod 2 ^ e"
proof -
  have "size_dec (2 ^ e) = mask e"
    by (simp add: size_dec_def mask_eq_exp_minus_1)
  then show ?thesis
    by (simp add: take_bit_eq_mod flip: take_bit_eq_mask)
qed

lemma pow2_and_size_dec: "(2::nat) ^ e AND size_dec (2 ^ e) = 0"
  by (simp add: and_size_dec_pow2)

lemma wrap_step: "cur < (n::nat) \<Longrightarrow> (if cur + 1 = n then 0 else cur + 1) = (cur + 1) mod n"
proof (cases "cur + 1 = n")
  case True
  then show ?thesis by simp
next
  case False
  assume "cur < n"
  with False have "cur + 1 < n" by simp
  with False show ?thesis by simp
qed

lemma off_of_pos: "b < n \<Longrightarrow> d < n \<Longrightarrow> ((b + d) mod n + n - b) mod (n::nat) = d"
  by (cases "b + d < n") (auto simp: mod_if)

lemma pos_of_off: "b < n \<Longrightarrow> j < n \<Longrightarrow> (b + (j + n - b) mod n) mod (n::nat) = j"
  by (cases "b \<le> j") (auto simp: mod_if)

lemma pos_inj: "b < n \<Longrightarrow> d < n \<Longrightarrow> d' < n \<Longrightarrow> (b + d) mod n = (b + d') mod (n::nat) \<Longrightarrow> d = d'"
  by (metis off_of_pos)

lemma chain_scan_Some:
  "chain_scan ct n b k cur cidx len = Some (c, ci) \<Longrightarrow> cur < n \<Longrightarrow>
   \<exists>d < len. c = (cur + d) mod n \<and> ci = cidx + d \<and> main_index (ct ! c) = b \<and> ckey (ct ! c) = k"
proof (induction len arbitrary: cur cidx)
  case 0
  then show ?case by simp
next
  case (Suc len)
  show ?case
  proof (cases "main_index (ct ! cur) = b \<and> ckey (ct ! cur) = k")
    case True
    with Suc.prems show ?thesis by (intro exI[of _ 0]) auto
  next
    case False
    with Suc.prems have rec: "chain_scan ct n b k ((cur + 1) mod n) (cidx + 1) len = Some (c, ci)"
      by (simp add: wrap_step del: One_nat_def)
    have "(cur + 1) mod n < n" using Suc.prems by simp
    from Suc.IH[OF rec this] obtain d where d: "d < len" "c = ((cur + 1) mod n + d) mod n"
      "ci = cidx + 1 + d" "main_index (ct ! c) = b" "ckey (ct ! c) = k" by blast
    have "c = (cur + Suc d) mod n" using d(2) by (simp add: mod_add_left_eq)
    with d show ?thesis by (intro exI[of _ "Suc d"]) auto
  qed
qed

lemma chain_scan_None:
  "cur < n \<Longrightarrow> chain_scan ct n b k cur cidx len = None \<longleftrightarrow>
   (\<forall>d < len. \<not> (main_index (ct ! ((cur + d) mod n)) = b \<and> ckey (ct ! ((cur + d) mod n)) = k))"
proof (induction len arbitrary: cur cidx)
  case 0
  then show ?case by simp
next
  case (Suc len)
  have lt: "(cur + 1) mod n < n" using Suc.prems by simp
  have shift: "\<And>d. ((cur + 1) mod n + d) mod n = (cur + Suc d) mod n"
    by (simp add: mod_add_left_eq)
  show ?case
  proof (cases "main_index (ct ! cur) = b \<and> ckey (ct ! cur) = k")
    case True
    then have "\<not> (\<forall>d < Suc len. \<not> (main_index (ct ! ((cur + d) mod n)) = b \<and> ckey (ct ! ((cur + d) mod n)) = k))"
      using Suc.prems by (auto intro!: exI[of _ 0])
    with True show ?thesis by simp
  next
    case False
    have "chain_scan ct n b k cur cidx (Suc len) = chain_scan ct n b k ((cur + 1) mod n) (cidx + 1) len"
      using False Suc.prems by (auto simp add: wrap_step simp del: One_nat_def)
    also have "\<dots> = None \<longleftrightarrow> (\<forall>d < len. \<not> (main_index (ct ! ((cur + Suc d) mod n)) = b \<and> ckey (ct ! ((cur + Suc d) mod n)) = k))"
      using Suc.IH[OF lt, of "cidx + 1"] by (simp only: shift)
    also have "\<dots> \<longleftrightarrow> (\<forall>d < Suc len. \<not> (main_index (ct ! ((cur + d) mod n)) = b \<and> ckey (ct ! ((cur + d) mod n)) = k))"
      using False Suc.prems by (auto simp: less_Suc_eq_0_disj)
    finally show ?thesis .
  qed
qed

lemma small_not_invalid: "x < n \<Longrightarrow> n \<le> 2 ^ 63 \<Longrightarrow> \<not> isInvalid x"
  by (simp add: isInvalid_def invalid_marker_def size_max_def)

lemma pow2_le_63: "e \<le> 63 \<Longrightarrow> (2::nat) ^ e \<le> 2 ^ 63"
  by (rule power_increasing) simp_all

lemma isInvalid_marker [simp]: "isInvalid invalid_marker"
  by (simp add: isInvalid_def)

lemma table_invE:
  assumes "table_inv cfg t"
  obtains mt ct e where
    "main_table t = Some mt" "collision_table t = Some ct"
    "bucket_count t = 2 ^ e" "e \<le> 63" "length mt = bucket_count t" "length ct = bucket_count t"
    "main_ok (hash_function cfg) (bucket_count t) mt"
    "coll_ok (hash_function cfg) (bucket_count t) mt ct"
    "tail_ok (bucket_count t) mt ct"
    "keys_ok (bucket_count t) ct"
    "count_ok (element_count t) (bucket_count t) mt ct"
  using assms unfolding table_inv_def shape_ok_def by blast

lemma table_inv_mask: "table_inv cfg t \<Longrightarrow> x AND mask_of t = x mod bucket_count t"
  by (erule table_invE) (simp add: mask_of_def and_size_dec_pow2)

lemma table_inv_pos: "table_inv cfg t \<Longrightarrow> 0 < bucket_count t"
  by (erule table_invE) simp

lemma table_inv_le: "table_inv cfg t \<Longrightarrow> bucket_count t \<le> 2 ^ 63"
  by (erule table_invE) (metis pow2_le_63)

lemma in_main_entries:
  "(k, v) \<in> set (main_entries mt) \<longleftrightarrow> (\<exists>i < length mt. mvalid (mt ! i) \<and> mkey (mt ! i) = k \<and> mval (mt ! i) = v)"
  by (auto simp: main_entries_def mvalid_def in_set_conv_nth)

lemma in_collision_entries:
  "(k, v) \<in> set (collision_entries ct) \<longleftrightarrow> (\<exists>j < length ct. cvalid (ct ! j) \<and> ckey (ct ! j) = k \<and> cval (ct ! j) = v)"
  by (auto simp: collision_entries_def cvalid_def in_set_conv_nth)

lemma entries_iff:
  "main_table t = Some mt \<Longrightarrow> collision_table t = Some ct \<Longrightarrow>
   (k, v) \<in> entries t \<longleftrightarrow>
     (\<exists>i < length mt. mvalid (mt ! i) \<and> mkey (mt ! i) = k \<and> mval (mt ! i) = v) \<or>
     (\<exists>j < length ct. cvalid (ct ! j) \<and> ckey (ct ! j) = k \<and> cval (ct ! j) = v)"
  by (simp add: entries_def in_main_entries in_collision_entries)

text \<open>The four outcomes of find on a well-formed table.\<close>

lemma find_hm_empty_bucket:
  assumes inv: "table_inv cfg t"
    and b: "b = hash_function cfg k mod bucket_count t"
    and nv: "\<not> mvalid (mainT t ! b)"
  shows "find_hm cfg t k = \<lparr>bucket_index = b, collision_index = invalid_marker, value_ptr = None\<rparr>"
  using inv nv b
  by (elim table_invE) (simp add: find_hm_def Let_def table_inv_mask[OF inv] mvalid_def)

lemma find_hm_main_hit:
  assumes inv: "table_inv cfg t"
    and b: "b = hash_function cfg k mod bucket_count t"
    and v: "mvalid (mainT t ! b)" and key: "mkey (mainT t ! b) = k"
  shows "find_hm cfg t k =
    \<lparr>bucket_index = b, collision_index = invalid_marker, value_ptr = Some (MainValue b)\<rparr>"
  using inv v key b
  by (elim table_invE) (simp add: find_hm_def Let_def table_inv_mask[OF inv] mvalid_def)

lemma find_hm_chain_miss:
  assumes inv: "table_inv cfg t"
    and b: "b = hash_function cfg k mod bucket_count t"
    and v: "mvalid (mainT t ! b)" and key: "mkey (mainT t ! b) \<noteq> k"
    and none: "\<forall>j < bucket_count t. cvalid (collT t ! j) \<longrightarrow> ckey (collT t ! j) \<noteq> k"
  shows "find_hm cfg t k =
    \<lparr>bucket_index = b, collision_index = (b + chain_length (mainT t ! b)) mod bucket_count t,
     value_ptr = None\<rparr>"
proof -
  from inv obtain mt ct e where t: "main_table t = Some mt" "collision_table t = Some ct"
    and n: "bucket_count t = 2 ^ e" "e \<le> 63"
    by (elim table_invE)
  let ?n = "bucket_count t"
  have npos: "0 < ?n" using n by simp
  have bn: "b < ?n" using b npos by simp
  have nle: "?n \<le> 2 ^ 63" using inv by (rule table_inv_le)
  show ?thesis
  proof (cases "chain_length (mt ! b) = 0")
    case True
    with v key b bn t show ?thesis
      by (simp add: find_hm_def Let_def table_inv_mask[OF inv] mvalid_def)
  next
    case False
    have scan: "chain_scan ct ?n b k b b (chain_length (mt ! b)) = None"
    proof (subst chain_scan_None[OF bn], intro allI impI notI)
      fix d assume "d < chain_length (mt ! b)"
        and m: "main_index (ct ! ((b + d) mod ?n)) = b \<and> ckey (ct ! ((b + d) mod ?n)) = k"
      let ?j = "(b + d) mod ?n"
      have "?j < ?n" using npos by simp
      moreover have "cvalid (ct ! ?j)"
        using m bn nle by (simp add: cvalid_def small_not_invalid)
      ultimately show False using none m t by auto
    qed
    with False v key b bn t show ?thesis
      by (simp add: find_hm_def find_in_collision_chain_def Let_def table_inv_mask[OF inv] mvalid_def)
  qed
qed

lemma find_hm_chain_hit:
  assumes inv: "table_inv cfg t"
    and b: "b = hash_function cfg k mod bucket_count t"
    and v: "mvalid (mainT t ! b)" and key: "mkey (mainT t ! b) \<noteq> k"
    and j: "j < bucket_count t" "cvalid (collT t ! j)" "ckey (collT t ! j) = k"
  shows "find_hm cfg t k =
    \<lparr>bucket_index = b, collision_index = j, value_ptr = Some (CollisionValue j)\<rparr>"
proof -
  from inv obtain mt ct e where t: "main_table t = Some mt" "collision_table t = Some ct"
    and n: "bucket_count t = 2 ^ e" "e \<le> 63"
    and cok: "coll_ok (hash_function cfg) (bucket_count t) mt ct"
    and kok: "keys_ok (bucket_count t) ct"
    by (elim table_invE)
  let ?n = "bucket_count t"
  have npos: "0 < ?n" using n by simp
  have bn: "b < ?n" using b npos by simp
  have nle: "?n \<le> 2 ^ 63" using inv by (rule table_inv_le)
  from cok j t b have own: "main_index (ct ! j) = b"
    and off: "(j + ?n - b) mod ?n < chain_length (mt ! b)"
    unfolding coll_ok_def by auto
  let ?d = "(j + ?n - b) mod ?n"
  have posj: "(b + ?d) mod ?n = j" using bn j(1) by (rule pos_of_off)
  have "chain_scan ct ?n b k b b (chain_length (mt ! b)) \<noteq> None"
    using chain_scan_None[OF bn, of ct b k b "chain_length (mt ! b)"] off posj own j t by auto
  then obtain c ci where sc: "chain_scan ct ?n b k b b (chain_length (mt ! b)) = Some (c, ci)"
    by auto
  from chain_scan_Some[OF sc bn] obtain d where d: "d < chain_length (mt ! b)"
    "c = (b + d) mod ?n" "ci = b + d" "main_index (ct ! c) = b" "ckey (ct ! c) = k" by blast
  have cn: "c < ?n" using d(2) npos by simp
  have "cvalid (ct ! c)" using d(4) bn nle by (simp add: cvalid_def small_not_invalid)
  with kok cn j t d(5) have cj: "c = j" unfolding keys_ok_def by auto
  have ne: "chain_length (mt ! b) \<noteq> 0" using off by simp
  show ?thesis using v key b bn t ne sc cj d(2,3)
    by (simp add: find_hm_def find_in_collision_chain_def Let_def table_inv_mask[OF inv] mvalid_def)
qed

lemma card_upd_gain:
  assumes "b < n" "length xs = n" "\<not> P (xs ! b)" "P x"
  shows "card {i. i < n \<and> P (xs[b := x] ! i)} = Suc (card {i. i < n \<and> P (xs ! i)})"
proof -
  have "{i. i < n \<and> P (xs[b := x] ! i)} = insert b {i. i < n \<and> P (xs ! i)}"
    using assms by (auto simp: nth_list_update)
  moreover have "b \<notin> {i. i < n \<and> P (xs ! i)}" using assms by simp
  moreover have "finite {i. i < n \<and> P (xs ! i)}" by simp
  ultimately show ?thesis by simp
qed

lemma card_upd_lose:
  assumes "b < n" "length xs = n" "P (xs ! b)" "\<not> P x"
  shows "Suc (card {i. i < n \<and> P (xs[b := x] ! i)}) = card {i. i < n \<and> P (xs ! i)}"
proof -
  have "P ((xs[b := x])[b := xs ! b] ! b)" "\<not> P (xs[b := x] ! b)"
    using assms by simp_all
  from card_upd_gain[of b n "xs[b := x]" P "xs ! b"] assms this
  show ?thesis by simp
qed

lemma card_upd_same:
  assumes "b < n" "length xs = n" "P (xs ! b) = P x"
  shows "card {i. i < n \<and> P (xs[b := x] ! i)} = card {i. i < n \<and> P (xs ! i)}"
proof -
  have "{i. i < n \<and> P (xs[b := x] ! i)} = {i. i < n \<and> P (xs ! i)}"
    using assms by (auto simp: nth_list_update)
  then show ?thesis by simp
qed

text \<open>Lookup on a well-formed table is membership in the stored pairs.\<close>

lemma find_hm_present:
  assumes inv: "table_inv cfg t" and kv: "(k, v) \<in> entries t"
  shows "value_ptr (find_hm cfg t k) \<noteq> None \<and> slot_entry t (find_hm cfg t k) = Some (k, v)"
proof -
  from inv obtain mt ct e where t: "main_table t = Some mt" "collision_table t = Some ct"
    and n: "bucket_count t = 2 ^ e" "length mt = bucket_count t" "length ct = bucket_count t"
    and mok: "main_ok (hash_function cfg) (bucket_count t) mt"
    and cok: "coll_ok (hash_function cfg) (bucket_count t) mt ct"
    by (elim table_invE)
  let ?b = "hash_function cfg k mod bucket_count t"
  from kv t n consider
    (main) i where "i < bucket_count t" "mvalid (mt ! i)" "mkey (mt ! i) = k" "mval (mt ! i) = v"
  | (coll) j where "j < bucket_count t" "cvalid (ct ! j)" "ckey (ct ! j) = k" "cval (ct ! j) = v"
    by (auto simp: entries_iff)
  then show ?thesis
  proof cases
    case main
    with mok have "i = ?b" unfolding main_ok_def by auto
    with main t have "mvalid (mainT t ! ?b)" "mkey (mainT t ! ?b) = k" by auto
    from find_hm_main_hit[OF inv refl this] main \<open>i = ?b\<close> t show ?thesis
      by (simp add: slot_entry_def)
  next
    case coll
    with cok have "main_index (ct ! j) = ?b" "mvalid (mt ! ?b)" "mkey (mt ! ?b) \<noteq> k"
      unfolding coll_ok_def by auto
    with t coll have "mvalid (mainT t ! ?b)" "mkey (mainT t ! ?b) \<noteq> k"
      "j < bucket_count t" "cvalid (collT t ! j)" "ckey (collT t ! j) = k" by auto
    from find_hm_chain_hit[OF inv refl this] coll t show ?thesis
      by (simp add: slot_entry_def)
  qed
qed

lemma find_hm_absent:
  assumes inv: "table_inv cfg t" and nk: "k \<notin> fst ` entries t"
  shows "find_hm cfg t k =
    \<lparr>bucket_index = hash_function cfg k mod bucket_count t,
     collision_index =
       (if mvalid (mainT t ! (hash_function cfg k mod bucket_count t))
        then (hash_function cfg k mod bucket_count t
              + chain_length (mainT t ! (hash_function cfg k mod bucket_count t))) mod bucket_count t
        else invalid_marker),
     value_ptr = None\<rparr>"
proof -
  from inv obtain mt ct e where t: "main_table t = Some mt" "collision_table t = Some ct"
    and n: "bucket_count t = 2 ^ e" "length mt = bucket_count t" "length ct = bucket_count t"
    by (elim table_invE)
  let ?b = "hash_function cfg k mod bucket_count t"
  have bn: "?b < bucket_count t" using n by simp
  show ?thesis
  proof (cases "mvalid (mainT t ! ?b)")
    case False
    from find_hm_empty_bucket[OF inv refl False] False show ?thesis by simp
  next
    case True
    have key: "mkey (mainT t ! ?b) \<noteq> k"
    proof
      assume "mkey (mainT t ! ?b) = k"
      with True bn t n
      have "\<exists>i < length mt. mvalid (mt ! i) \<and> mkey (mt ! i) = k \<and> mval (mt ! i) = mval (mt ! ?b)"
        by (intro exI[of _ ?b]) simp
      with t have "(k, mval (mt ! ?b)) \<in> entries t"
        by (simp add: entries_iff)
      with nk show False by force
    qed
    have none: "\<forall>j < bucket_count t. cvalid (collT t ! j) \<longrightarrow> ckey (collT t ! j) \<noteq> k"
    proof (intro allI impI notI)
      fix j assume "j < bucket_count t" "cvalid (collT t ! j)" "ckey (collT t ! j) = k"
      with t n
      have "\<exists>i < length ct. cvalid (ct ! i) \<and> ckey (ct ! i) = k \<and> cval (ct ! i) = cval (ct ! j)"
        by (intro exI[of _ j]) simp
      with t have "(k, cval (ct ! j)) \<in> entries t" by (simp add: entries_iff)
      with nk show False by force
    qed
    from find_hm_chain_miss[OF inv refl True key none] True show ?thesis by simp
  qed
qed

lemma find_hm_found_iff:
  assumes inv: "table_inv cfg t"
  shows "value_ptr (find_hm cfg t k) \<noteq> None \<longleftrightarrow> k \<in> fst ` entries t"
proof
  assume "value_ptr (find_hm cfg t k) \<noteq> None"
  then show "k \<in> fst ` entries t"
    using find_hm_absent[OF inv, of k] by (cases "k \<in> fst ` entries t") auto
next
  assume "k \<in> fst ` entries t"
  then obtain v where "(k, v) \<in> entries t" by auto
  from find_hm_present[OF inv this] show "value_ptr (find_hm cfg t k) \<noteq> None" by simp
qed

lemma lookup_iff:
  assumes inv: "table_inv cfg t"
  shows "lookup cfg t k = Some v \<longleftrightarrow> (k, v) \<in> entries t"
proof
  assume "(k, v) \<in> entries t"
  from find_hm_present[OF inv this] show "lookup cfg t k = Some v"
    by (simp add: lookup_def)
next
  assume l: "lookup cfg t k = Some v"
  then have "value_ptr (find_hm cfg t k) \<noteq> None"
    by (auto simp: lookup_def slot_entry_def split: option.splits)
  then obtain v' where kv: "(k, v') \<in> entries t"
    using find_hm_found_iff[OF inv] by auto
  from find_hm_present[OF inv kv] l have "v' = v" by (simp add: lookup_def)
  with kv show "(k, v) \<in> entries t" by simp
qed

lemma lookup_None_iff:
  assumes inv: "table_inv cfg t"
  shows "lookup cfg t k = None \<longleftrightarrow> k \<notin> fst ` entries t"
proof -
  have "lookup cfg t k \<noteq> None \<longleftrightarrow> k \<in> fst ` entries t"
    using lookup_iff[OF inv, of k] by force
  then show ?thesis by blast
qed

lemma lookup_unallocated: "unallocated t \<Longrightarrow> lookup cfg t k = None"
  by (simp add: unallocated_def lookup_def find_hm_def end_hm_def slot_entry_def)

lemma entries_unallocated: "unallocated t \<Longrightarrow> entries t = {}"
  by (simp add: unallocated_def entries_def)

lemma and_pred_zero_pow2:
  "n \<noteq> 0 \<Longrightarrow> n AND (n - 1) = 0 \<Longrightarrow> \<exists>e. n = (2::nat) ^ e"
proof (induction n rule: less_induct)
  case (less n)
  show ?case
  proof (cases "even n")
    case True
    then obtain m where m: "n = 2 * m" by (elim evenE)
    with less.prems have mpos: "m \<noteq> 0" by simp
    have odd1: "odd (n - 1)" using True less.prems by simp
    have d: "(n - 1) div 2 = m - 1" using m mpos by (cases m) simp_all
    have "n AND (n - 1) = 2 * (m AND (m - 1))"
      using True m d by (subst and_rec) simp
    with less.prems have "m AND (m - 1) = 0" by simp
    moreover have "m < n" using m mpos by simp
    ultimately obtain e where "m = 2 ^ e" using less.IH mpos by blast
    with m have "n = 2 ^ Suc e" by simp
    then show ?thesis by blast
  next
    case False
    then obtain m where m: "n = 2 * m + 1" by (elim oddE)
    have "n AND (n - 1) = 2 * m"
      using m by (subst and_rec) simp
    with less.prems have "m = 0" by simp
    with m have "n = 2 ^ 0" by simp
    then show ?thesis by blast
  qed
qed

lemma not_pow2_and_size_dec:
  assumes "n \<noteq> 0" "\<forall>e. n \<noteq> 2 ^ e"
  shows "n AND size_dec n \<noteq> 0"
  using assms and_pred_zero_pow2[of n] by (auto simp: size_dec_def)

text \<open>
  C8, as amended.  A bucket count that is neither zero nor a power of two makes
  \<open>resize_table\<close> abort the process.  A \<open>reserve\<close> request of
  \<open>SIZE_MAX / 2\<close> or more throws \<open>std::range_error\<close>: an exception, which the
  caller of \<open>reserve\<close> can catch.
\<close>

theorem contract_violation_split:
  "(n \<noteq> 0 \<and> (\<forall>e. n \<noteq> 2 ^ e) \<longrightarrow> resize_table cfg (Suc f) t n = Some (Inl Abort)) \<and>
   (size_max div 2 \<le> n \<longrightarrow> reserve cfg f t n = Some (Inl RangeError))"
  by (auto simp: not_pow2_and_size_dec reserve.simps)

lemma three_not_pow2: "(3::nat) \<noteq> 2 ^ e"
proof (cases e)
  case 0
  then show ?thesis by simp
next
  case (Suc e')
  have "even ((2::nat) ^ Suc e')" by simp
  moreover have "odd (3::nat)" by simp
  ultimately show ?thesis unfolding Suc by metis
qed

theorem contract_violation_split_witness:
  "(3::nat) \<noteq> 0 \<and> (\<forall>e. (3::nat) \<noteq> 2 ^ e) \<and>
   resize_table cfg_nat (Suc 0) empty_map 3 = Some (Inl Abort) \<and>
   size_max div 2 \<le> size_max \<and>
   reserve cfg_nat 0 empty_map size_max = Some (Inl RangeError)"
  using contract_violation_split[of 3 cfg_nat 0 empty_map]
    contract_violation_split[of size_max cfg_nat 0 empty_map] three_not_pow2
  by simp

text \<open>
  C8 as stated fails: \<open>reserve(SIZE_MAX)\<close> on an empty map does not terminate the
  process, it raises the range error.
\<close>

theorem reserve_range_error_not_fatal:
  "reserve cfg_nat (Suc 0) empty_map 18446744073709551615 = Some (Inl RangeError) \<and>
   reserve cfg_nat (Suc 0) empty_map 18446744073709551615 \<noteq> Some (Inl Abort)"
  by (simp add: reserve.simps size_max_def)

lemma main_entries_upd_gain:
  assumes "b < length mt" "\<not> mvalid (mt ! b)" "mvalid x"
  shows "set (main_entries (mt[b := x])) = insert (mkey x, mval x) (set (main_entries mt))"
proof (rule set_eqI)
  fix p :: "'a \<times> 'b"
  obtain k v where p: "p = (k, v)" by (cases p)
  show "p \<in> set (main_entries (mt[b := x])) \<longleftrightarrow> p \<in> insert (mkey x, mval x) (set (main_entries mt))"
    unfolding p in_main_entries insert_iff using assms
    by (auto simp: nth_list_update split: if_splits)
qed

lemma main_entries_upd_same:
  assumes "b < length mt" "mvalid (mt ! b)" "mvalid x" "mkey x = mkey (mt ! b)" "mval x = mval (mt ! b)"
  shows "set (main_entries (mt[b := x])) = set (main_entries mt)"
proof (rule set_eqI)
  fix p :: "'a \<times> 'b"
  obtain k v where p: "p = (k, v)" by (cases p)
  show "p \<in> set (main_entries (mt[b := x])) \<longleftrightarrow> p \<in> set (main_entries mt)"
    unfolding p in_main_entries using assms
    by (auto simp: nth_list_update split: if_splits)
qed

lemma collision_entries_upd_gain:
  assumes "j < length ct" "\<not> cvalid (ct ! j)" "cvalid x"
  shows "set (collision_entries (ct[j := x])) = insert (ckey x, cval x) (set (collision_entries ct))"
proof (rule set_eqI)
  fix p :: "'a \<times> 'b"
  obtain k v where p: "p = (k, v)" by (cases p)
  show "p \<in> set (collision_entries (ct[j := x])) \<longleftrightarrow> p \<in> insert (ckey x, cval x) (set (collision_entries ct))"
    unfolding p in_collision_entries insert_iff using assms
    by (auto simp: nth_list_update split: if_splits)
qed

lemma probe_Some:
  "probe ct (size_dec (2 ^ e)) index cl steps = Some (idx, cl') \<Longrightarrow> index < 2 ^ e \<Longrightarrow>
   \<exists>d < steps. idx = (index + d) mod 2 ^ e \<and> cl' = cl + d \<and> \<not> cvalid (ct ! idx) \<and>
      (\<forall>d' < d. cvalid (ct ! ((index + d') mod 2 ^ e)))"
proof (induction steps arbitrary: index cl)
  case 0
  then show ?case by simp
next
  case (Suc steps)
  show ?case
  proof (cases "cvalid (ct ! index)")
    case False
    with Suc.prems show ?thesis
      by (intro exI[of _ 0]) (auto simp: cvalid_def)
  next
    case True
    with Suc.prems have rec: "probe ct (size_dec (2 ^ e)) ((index + 1) mod 2 ^ e) (cl + 1) steps = Some (idx, cl')"
      by (simp add: cvalid_def and_size_dec_pow2 del: One_nat_def)
    have "(index + 1) mod 2 ^ e < (2::nat) ^ e" by simp
    from Suc.IH[OF rec this] obtain d where d: "d < steps"
      "idx = ((index + 1) mod 2 ^ e + d) mod 2 ^ e" "cl' = cl + 1 + d" "\<not> cvalid (ct ! idx)"
      "\<forall>d' < d. cvalid (ct ! (((index + 1) mod 2 ^ e + d') mod 2 ^ e))" by blast
    have shift: "\<And>x. ((index + 1) mod 2 ^ e + x) mod 2 ^ e = (index + Suc x) mod 2 ^ e"
      by (simp add: mod_add_left_eq)
    have "\<forall>d' < Suc d. cvalid (ct ! ((index + d') mod 2 ^ e))"
    proof (intro allI impI)
      fix d' assume "d' < Suc d"
      show "cvalid (ct ! ((index + d') mod 2 ^ e))"
      proof (cases d')
        case 0
        with True Suc.prems show ?thesis by simp
      next
        case (Suc x)
        with \<open>d' < Suc d\<close> d(5) shift show ?thesis by auto
      qed
    qed
    with d shift show ?thesis by (intro exI[of _ "Suc d"]) auto
  qed
qed

lemma probe_None:
  "index < 2 ^ e \<Longrightarrow> probe ct (size_dec (2 ^ e)) index cl steps = None \<Longrightarrow>
   d < steps \<Longrightarrow> cvalid (ct ! ((index + d) mod 2 ^ e))"
proof (induction steps arbitrary: index cl d)
  case 0
  then show ?case by simp
next
  case (Suc steps)
  from Suc.prems(2) have v: "cvalid (ct ! index)"
    by (auto simp: cvalid_def split: if_splits)
  with Suc.prems(2) have rec: "probe ct (size_dec (2 ^ e)) ((index + 1) mod 2 ^ e) (cl + 1) steps = None"
    by (simp add: cvalid_def and_size_dec_pow2 del: One_nat_def)
  have lt: "(index + 1) mod 2 ^ e < (2::nat) ^ e" by simp
  show ?case
  proof (cases d)
    case 0
    with v Suc.prems(1) show ?thesis by simp
  next
    case (Suc x)
    with Suc.prems(3) have "x < steps" by simp
    from Suc.IH[OF lt rec this] have "cvalid (ct ! (((index + 1) mod 2 ^ e + x) mod 2 ^ e))" .
    then show ?thesis unfolding Suc by (simp add: mod_add_left_eq)
  qed
qed

lemma zero_not_invalid [simp]: "\<not> isInvalid 0"
  by (simp add: isInvalid_def invalid_marker_def size_max_def)

lemma mvalid_upd [simp]: "mvalid (e\<lparr>chain_length := c\<rparr>) \<longleftrightarrow> \<not> isInvalid c"
  by (simp add: mvalid_def)

lemma mvalid_mk [simp]: "mvalid \<lparr>mkey = k, mval = v, chain_length = c\<rparr> \<longleftrightarrow> \<not> isInvalid c"
  by (simp add: mvalid_def)

lemma cvalid_upd [simp]: "cvalid (e\<lparr>main_index := c\<rparr>) \<longleftrightarrow> \<not> isInvalid c"
  by (simp add: cvalid_def)

lemma cvalid_mk [simp]: "cvalid \<lparr>ckey = k, cval = v, main_index = c\<rparr> \<longleftrightarrow> \<not> isInvalid c"
  by (simp add: cvalid_def)

lemma cvalid_kv_upd [simp]: "cvalid (e\<lparr>ckey := k, cval := v\<rparr>) \<longleftrightarrow> cvalid e"
  by (simp add: cvalid_def)

lemma store_main_inv:
  assumes inv: "table_inv cfg t"
    and nv: "\<not> mvalid (mainT t ! (hash_function cfg k mod bucket_count t))"
  shows "table_inv cfg (fst (store_main t (hash_function cfg k mod bucket_count t) k v))"
    and "entries (fst (store_main t (hash_function cfg k mod bucket_count t) k v)) = insert (k, v) (entries t)"
    and "element_count (fst (store_main t (hash_function cfg k mod bucket_count t) k v)) = Suc (element_count t)"
    and "bucket_count (fst (store_main t (hash_function cfg k mod bucket_count t) k v)) = bucket_count t"
proof -
  from inv obtain mt ct e where t: "main_table t = Some mt" "collision_table t = Some ct"
    and n: "bucket_count t = 2 ^ e" "e \<le> 63" "length mt = bucket_count t" "length ct = bucket_count t"
    and mok: "main_ok (hash_function cfg) (bucket_count t) mt"
    and cok: "coll_ok (hash_function cfg) (bucket_count t) mt ct"
    and tok: "tail_ok (bucket_count t) mt ct"
    and kok: "keys_ok (bucket_count t) ct"
    and cnt: "count_ok (element_count t) (bucket_count t) mt ct"
    by (elim table_invE)
  define n where "n = bucket_count t"
  define b where "b = hash_function cfg k mod n"
  define mt' where "mt' = mt[b := \<lparr>mkey = k, mval = v, chain_length = 0\<rparr>]"
  define t' where "t' = fst (store_main t b k v)"
  have npos: "0 < n" using n(1) by (simp add: n_def)
  have bn: "b < n" using npos by (simp add: b_def)
  have nvb: "\<not> mvalid (mt ! b)" using nv t by (simp add: b_def n_def)
  have len: "length mt = n" "length ct = n" using n by (simp_all add: n_def)
  have t'_eq: "t' = t\<lparr>element_count := element_count t + 1, main_table := Some mt'\<rparr>"
    using t by (simp add: t'_def store_main_def mt'_def)
  have others: "\<And>i. i \<noteq> b \<Longrightarrow> mt' ! i = mt ! i" by (simp add: mt'_def)
  have atb: "mt' ! b = \<lparr>mkey = k, mval = v, chain_length = 0\<rparr>"
    using bn len by (simp add: mt'_def)
  have mok': "main_ok (hash_function cfg) n mt'"
    unfolding main_ok_def
  proof (intro allI impI)
    fix i assume "i < n" "mvalid (mt' ! i)"
    then show "hash_function cfg (mkey (mt' ! i)) mod n = i \<and> chain_length (mt' ! i) < n"
      using mok atb others[of i] npos unfolding main_ok_def n_def[symmetric]
      by (cases "i = b") (auto simp: b_def)
  qed
  have cok': "coll_ok (hash_function cfg) n mt' ct"
    unfolding coll_ok_def
  proof (intro allI impI)
    fix j assume j: "j < n" "cvalid (ct ! j)"
    with cok have o: "main_index (ct ! j) < n" "mvalid (mt ! main_index (ct ! j))"
      "hash_function cfg (ckey (ct ! j)) mod n = main_index (ct ! j)"
      "ckey (ct ! j) \<noteq> mkey (mt ! main_index (ct ! j))"
      "(j + n - main_index (ct ! j)) mod n < chain_length (mt ! main_index (ct ! j))"
      unfolding coll_ok_def n_def[symmetric] by auto
    from o(2) nvb have "main_index (ct ! j) \<noteq> b" by auto
    from others[OF this] o
    show "main_index (ct ! j) < n \<and> mvalid (mt' ! main_index (ct ! j)) \<and>
        hash_function cfg (ckey (ct ! j)) mod n = main_index (ct ! j) \<and>
        ckey (ct ! j) \<noteq> mkey (mt' ! main_index (ct ! j)) \<and>
        (j + n - main_index (ct ! j)) mod n < chain_length (mt' ! main_index (ct ! j))"
      by simp
  qed
  have tok': "tail_ok n mt' ct"
    unfolding tail_ok_def
  proof (intro allI impI)
    fix i assume "i < n" "mvalid (mt' ! i) \<and> 0 < chain_length (mt' ! i)"
    then show "main_index (ct ! ((i + chain_length (mt' ! i) - 1) mod n)) = i"
      using tok atb others[of i] unfolding tail_ok_def n_def[symmetric]
      by (cases "i = b") auto
  qed
  have cnt': "count_ok (element_count t') n mt' ct"
    using cnt card_upd_gain[of b n mt mvalid "\<lparr>mkey = k, mval = v, chain_length = 0\<rparr>"] bn len nvb
    unfolding count_ok_def n_def[symmetric] t'_eq mt'_def by simp
  have bc: "bucket_count t' = n" by (simp add: t'_eq n_def)
  have "shape_ok n mt' ct" using n len unfolding shape_ok_def mt'_def n_def by auto
  with mok' cok' tok' kok cnt' bc t have "table_inv cfg t'"
    unfolding table_inv_def by (simp add: t'_eq n_def)
  moreover have "entries t' = insert (k, v) (entries t)"
    using main_entries_upd_gain[of b mt "\<lparr>mkey = k, mval = v, chain_length = 0\<rparr>"] bn len nvb t
    by (simp add: entries_def t'_eq mt'_def)
  moreover have "element_count t' = Suc (element_count t)" by (simp add: t'_eq)
  ultimately show
    "table_inv cfg (fst (store_main t (hash_function cfg k mod bucket_count t) k v))"
    "entries (fst (store_main t (hash_function cfg k mod bucket_count t) k v)) = insert (k, v) (entries t)"
    "element_count (fst (store_main t (hash_function cfg k mod bucket_count t) k v)) = Suc (element_count t)"
    "bucket_count (fst (store_main t (hash_function cfg k mod bucket_count t) k v)) = bucket_count t"
    using bc unfolding t'_def b_def n_def by simp_all
qed

lemma store_collision_inv:
  assumes inv: "table_inv cfg t"
    and b: "b = hash_function cfg k mod bucket_count t"
    and mv: "mvalid (mainT t ! b)"
    and nk: "k \<notin> fst ` entries t"
    and idx: "idx < bucket_count t" "\<not> cvalid (collT t ! idx)"
      "idx = (b + (cl - 1)) mod bucket_count t"
    and cl: "chain_length (mainT t ! b) < cl" "cl < bucket_count t"
  shows "table_inv cfg (fst (store_collision t b idx cl k v))"
    and "entries (fst (store_collision t b idx cl k v)) = insert (k, v) (entries t)"
    and "element_count (fst (store_collision t b idx cl k v)) = Suc (element_count t)"
    and "bucket_count (fst (store_collision t b idx cl k v)) = bucket_count t"
proof -
  from inv obtain mt ct e where t: "main_table t = Some mt" "collision_table t = Some ct"
    and n: "bucket_count t = 2 ^ e" "e \<le> 63" "length mt = bucket_count t" "length ct = bucket_count t"
    and mok: "main_ok (hash_function cfg) (bucket_count t) mt"
    and cok: "coll_ok (hash_function cfg) (bucket_count t) mt ct"
    and tok: "tail_ok (bucket_count t) mt ct"
    and kok: "keys_ok (bucket_count t) ct"
    and cnt: "count_ok (element_count t) (bucket_count t) mt ct"
    by (elim table_invE)
  define n where "n = bucket_count t"
  define mt' where "mt' = mt[b := (mt ! b)\<lparr>chain_length := cl\<rparr>]"
  define ct' where "ct' = ct[idx := \<lparr>ckey = k, cval = v, main_index = b\<rparr>]"
  define t' where "t' = fst (store_collision t b idx cl k v)"
  have npos: "0 < n" using n(1) by (simp add: n_def)
  have nle: "n \<le> 2 ^ 63" using inv unfolding n_def by (rule table_inv_le)
  have bn: "b < n" using npos by (simp add: b n_def)
  have len: "length mt = n" "length ct = n" using n by (simp_all add: n_def)
  have mvb: "mvalid (mt ! b)" using mv t by simp
  have idxn: "idx < n" and idx_free: "\<not> cvalid (ct ! idx)" and idx_eq: "idx = (b + (cl - 1)) mod n"
    using idx t by (simp_all add: n_def)
  have cl0: "chain_length (mt ! b) < cl" and cln: "cl < n" using cl t by (simp_all add: n_def)
  have clv: "\<not> isInvalid cl" using cln nle by (rule small_not_invalid)
  have bv: "\<not> isInvalid b" using bn nle by (rule small_not_invalid)
  have t'_eq: "t' = t\<lparr>element_count := element_count t + 1, main_table := Some mt',
      collision_table := Some ct'\<rparr>"
    using t by (simp add: t'_def store_collision_def mt'_def ct'_def)
  have m_others: "\<And>i. i \<noteq> b \<Longrightarrow> mt' ! i = mt ! i" by (simp add: mt'_def)
  have m_atb: "mt' ! b = (mt ! b)\<lparr>chain_length := cl\<rparr>" using bn len by (simp add: mt'_def)
  have c_others: "\<And>j. j \<noteq> idx \<Longrightarrow> ct' ! j = ct ! j" by (simp add: ct'_def)
  have c_at: "ct' ! idx = \<lparr>ckey = k, cval = v, main_index = b\<rparr>" using idxn len by (simp add: ct'_def)
  have key_b: "k \<noteq> mkey (mt ! b)"
  proof
    assume "k = mkey (mt ! b)"
    with mvb bn len have "\<exists>i < length mt. mvalid (mt ! i) \<and> mkey (mt ! i) = k \<and> mval (mt ! i) = mval (mt ! b)"
      by (intro exI[of _ b]) simp
    with t have "(k, mval (mt ! b)) \<in> entries t" by (simp add: entries_iff)
    with nk show False by force
  qed
  have key_c: "\<And>j. j < n \<Longrightarrow> cvalid (ct ! j) \<Longrightarrow> ckey (ct ! j) \<noteq> k"
  proof
    fix j assume "j < n" "cvalid (ct ! j)" "ckey (ct ! j) = k"
    with len have "\<exists>i < length ct. cvalid (ct ! i) \<and> ckey (ct ! i) = k \<and> cval (ct ! i) = cval (ct ! j)"
      by (intro exI[of _ j]) simp
    with t have "(k, cval (ct ! j)) \<in> entries t" by (simp add: entries_iff)
    with nk show False by force
  qed
  have mok': "main_ok (hash_function cfg) n mt'"
    unfolding main_ok_def
  proof (intro allI impI)
    fix i assume "i < n" "mvalid (mt' ! i)"
    then show "hash_function cfg (mkey (mt' ! i)) mod n = i \<and> chain_length (mt' ! i) < n"
      using mok m_atb m_others[of i] mvb cln unfolding main_ok_def n_def[symmetric]
      by (cases "i = b") auto
  qed
  have off_idx: "(idx + n - b) mod n = cl - 1"
    unfolding idx_eq using bn cln by (intro off_of_pos) simp_all
  have cok': "coll_ok (hash_function cfg) n mt' ct'"
    unfolding coll_ok_def
  proof (intro allI impI)
    fix j assume j: "j < n" "cvalid (ct' ! j)"
    show "main_index (ct' ! j) < n \<and> mvalid (mt' ! main_index (ct' ! j)) \<and>
        hash_function cfg (ckey (ct' ! j)) mod n = main_index (ct' ! j) \<and>
        ckey (ct' ! j) \<noteq> mkey (mt' ! main_index (ct' ! j)) \<and>
        (j + n - main_index (ct' ! j)) mod n < chain_length (mt' ! main_index (ct' ! j))"
    proof (cases "j = idx")
      case True
      then show ?thesis
        using c_at m_atb bn clv key_b off_idx cl0 by (simp add: b n_def)
    next
      case False
      with j c_others have v: "cvalid (ct ! j)" and same: "ct' ! j = ct ! j" by simp_all
      with cok j have o: "main_index (ct ! j) < n" "mvalid (mt ! main_index (ct ! j))"
        "hash_function cfg (ckey (ct ! j)) mod n = main_index (ct ! j)"
        "ckey (ct ! j) \<noteq> mkey (mt ! main_index (ct ! j))"
        "(j + n - main_index (ct ! j)) mod n < chain_length (mt ! main_index (ct ! j))"
        unfolding coll_ok_def n_def[symmetric] by auto
      show ?thesis
      proof (cases "main_index (ct ! j) = b")
        case True
        with o same m_atb clv cl0 show ?thesis by simp
      next
        case False
        with o same m_others[OF False] show ?thesis by simp
      qed
    qed
  qed
  have tok': "tail_ok n mt' ct'"
    unfolding tail_ok_def
  proof (intro allI impI)
    fix i assume i: "i < n" "mvalid (mt' ! i) \<and> 0 < chain_length (mt' ! i)"
    show "main_index (ct' ! ((i + chain_length (mt' ! i) - 1) mod n)) = i"
    proof (cases "i = b")
      case True
      have "(b + cl - 1) mod n = idx" using cl0 idx_eq by simp
      with True m_atb c_at show ?thesis by simp
    next
      case False
      let ?p = "(i + chain_length (mt ! i) - 1) mod n"
      from False i m_others have old: "mvalid (mt ! i) \<and> 0 < chain_length (mt ! i)" by simp
      with tok i(1) have own: "main_index (ct ! ?p) = i"
        unfolding tail_ok_def n_def[symmetric] by simp
      then have "cvalid (ct ! ?p)" using i(1) nle by (simp add: cvalid_def small_not_invalid)
      with idx_free have "?p \<noteq> idx" by auto
      with own False m_others c_others show ?thesis by simp
    qed
  qed
  have kok': "keys_ok n ct'"
    unfolding keys_ok_def
  proof (intro allI impI)
    fix j j' assume jj: "j < n" "j' < n"
      "cvalid (ct' ! j) \<and> cvalid (ct' ! j') \<and> ckey (ct' ! j) = ckey (ct' ! j')"
    show "j = j'"
    proof (cases "j = idx"; cases "j' = idx")
      assume "j \<noteq> idx" "j' \<noteq> idx"
      with jj kok c_others show ?thesis unfolding keys_ok_def n_def[symmetric] by simp
    next
      assume a: "j = idx" "j' \<noteq> idx"
      with jj c_at c_others have "cvalid (ct ! j')" "ckey (ct ! j') = k" by simp_all
      with key_c[OF jj(2)] show ?thesis by simp
    next
      assume a: "j \<noteq> idx" "j' = idx"
      with jj c_at c_others have "cvalid (ct ! j)" "ckey (ct ! j) = k" by simp_all
      with key_c[OF jj(1)] show ?thesis by simp
    qed simp
  qed
  have cnt': "count_ok (element_count t') n mt' ct'"
    using cnt
      card_upd_same[of b n mt mvalid "(mt ! b)\<lparr>chain_length := cl\<rparr>"]
      card_upd_gain[of idx n ct cvalid "\<lparr>ckey = k, cval = v, main_index = b\<rparr>"]
      bn idxn len mvb clv bv idx_free
    unfolding count_ok_def n_def[symmetric] t'_eq mt'_def ct'_def by simp
  have bc: "bucket_count t' = n" by (simp add: t'_eq n_def)
  have "shape_ok n mt' ct'" using n len unfolding shape_ok_def mt'_def ct'_def n_def by auto
  with mok' cok' tok' kok' cnt' bc t have "table_inv cfg t'"
    unfolding table_inv_def by (simp add: t'_eq n_def)
  moreover have "entries t' = insert (k, v) (entries t)"
    using main_entries_upd_same[of b mt "(mt ! b)\<lparr>chain_length := cl\<rparr>"]
      collision_entries_upd_gain[of idx ct "\<lparr>ckey = k, cval = v, main_index = b\<rparr>"]
      bn idxn len mvb clv bv idx_free t
    by (simp add: entries_def t'_eq mt'_def ct'_def)
  moreover have "element_count t' = Suc (element_count t)" by (simp add: t'_eq)
  ultimately show "table_inv cfg (fst (store_collision t b idx cl k v))"
    "entries (fst (store_collision t b idx cl k v)) = insert (k, v) (entries t)"
    "element_count (fst (store_collision t b idx cl k v)) = Suc (element_count t)"
    "bucket_count (fst (store_collision t b idx cl k v)) = bucket_count t"
    using bc unfolding t'_def n_def by simp_all
qed

lemma store_main_dense:
  assumes inv: "table_inv cfg t" and d: "table_dense t"
    and nv: "\<not> mvalid (mainT t ! (hash_function cfg k mod bucket_count t))"
  shows "table_dense (fst (store_main t (hash_function cfg k mod bucket_count t) k v))"
proof -
  from inv obtain mt ct e where t: "main_table t = Some mt" "collision_table t = Some ct"
    and n: "bucket_count t = 2 ^ e" "length mt = bucket_count t"
    by (elim table_invE)
  let ?b = "hash_function cfg k mod bucket_count t"
  have bn: "?b < length mt" using n by simp
  from d t have dn: "dense (bucket_count t) mt ct" by (simp add: table_dense_def)
  have "dense (bucket_count t) (mt[?b := \<lparr>mkey = k, mval = v, chain_length = 0\<rparr>]) ct"
    unfolding dense_def
  proof (intro allI impI)
    fix i d assume "i < bucket_count t"
      "mvalid (mt[?b := \<lparr>mkey = k, mval = v, chain_length = 0\<rparr>] ! i)"
      "d < chain_length (mt[?b := \<lparr>mkey = k, mval = v, chain_length = 0\<rparr>] ! i)"
    then show "cvalid (ct ! ((i + d) mod bucket_count t))"
      using dn bn unfolding dense_def by (cases "i = ?b") auto
  qed
  with t show ?thesis by (simp add: table_dense_def store_main_def)
qed

lemma store_collision_dense:
  assumes inv: "table_inv cfg t" and d: "table_dense t"
    and b: "b < bucket_count t"
    and idx: "idx < bucket_count t" "idx = (b + (cl - 1)) mod bucket_count t"
    and cl: "chain_length (mainT t ! b) < cl" "cl < bucket_count t"
    and skipped: "\<forall>d. chain_length (mainT t ! b) \<le> d \<and> d < cl - 1 \<longrightarrow>
        cvalid (collT t ! ((b + d) mod bucket_count t))"
  shows "table_dense (fst (store_collision t b idx cl k v))"
proof -
  from inv obtain mt ct e where t: "main_table t = Some mt" "collision_table t = Some ct"
    and n: "bucket_count t = 2 ^ e" "length mt = bucket_count t" "length ct = bucket_count t"
    by (elim table_invE)
  define n where "n = bucket_count t"
  have nle: "n \<le> 2 ^ 63" using inv unfolding n_def by (rule table_inv_le)
  have len: "length mt = n" "length ct = n" using n by (simp_all add: n_def)
  have bn: "b < n" and idxn: "idx < n" using b idx by (simp_all add: n_def)
  have bv: "\<not> isInvalid b" using bn nle by (rule small_not_invalid)
  from d t have dn: "dense n mt ct" by (simp add: table_dense_def n_def)
  define mt' where "mt' = mt[b := (mt ! b)\<lparr>chain_length := cl\<rparr>]"
  define ct' where "ct' = ct[idx := \<lparr>ckey = k, cval = v, main_index = b\<rparr>]"
  have grow: "\<And>j. j < n \<Longrightarrow> cvalid (ct ! j) \<Longrightarrow> cvalid (ct' ! j)"
    using bv len idxn by (simp add: ct'_def nth_list_update)
  have at: "cvalid (ct' ! idx)" using bv idxn len by (simp add: ct'_def)
  have "dense n mt' ct'"
    unfolding dense_def
  proof (intro allI impI)
    fix i d assume i: "i < n" "mvalid (mt' ! i)" "d < chain_length (mt' ! i)"
    have pn: "(i + d) mod n < n" using i(1) by simp
    show "cvalid (ct' ! ((i + d) mod n))"
    proof (cases "i = b")
      case False
      with i have "mvalid (mt ! i)" "d < chain_length (mt ! i)" by (simp_all add: mt'_def)
      with dn i(1) have "cvalid (ct ! ((i + d) mod n))" unfolding dense_def by simp
      with pn show ?thesis by (rule grow)
    next
      case True
      with i bn len have dcl: "d < cl" by (simp add: mt'_def)
      have "chain_length (mt ! b) < n" using cl t by (simp add: n_def)
      then have mvb: "mvalid (mt ! b)" using nle
        by (simp add: mvalid_def small_not_invalid)
      consider "d < chain_length (mt ! b)" | "chain_length (mt ! b) \<le> d" "d < cl - 1" | "d = cl - 1"
        using dcl by linarith
      then show ?thesis
      proof cases
        case 1
        with dn bn mvb have "cvalid (ct ! ((b + d) mod n))" unfolding dense_def by simp
        with pn True show ?thesis by (simp add: grow)
      next
        case 2
        with skipped t have "cvalid (ct ! ((b + d) mod n))" by (simp add: n_def)
        with pn True show ?thesis by (simp add: grow)
      next
        case 3
        with idx(2) True at show ?thesis by (simp add: n_def)
      qed
    qed
  qed
  with t show ?thesis by (simp add: table_dense_def store_collision_def mt'_def ct'_def n_def)
qed

text \<open>A fresh table is well formed and empty.\<close>

lemma fresh_table_inv:
  assumes "e \<le> 63"
  shows "table_inv cfg (fresh_table cfg (2 ^ e))"
    and "entries (fresh_table cfg (2 ^ e)) = {}"
    and "table_dense (fresh_table cfg (2 ^ e))"
proof -
  show "table_inv cfg (fresh_table cfg (2 ^ e))"
    using assms
    unfolding table_inv_def fresh_table_def shape_ok_def main_ok_def coll_ok_def tail_ok_def
      keys_ok_def count_ok_def
    by (auto simp: mvalid_def cvalid_def)
  show "entries (fresh_table cfg (2 ^ e)) = {}"
    by (simp add: entries_def fresh_table_def main_entries_def collision_entries_def mvalid_def)
  show "table_dense (fresh_table cfg (2 ^ e))"
    by (simp add: table_dense_def fresh_table_def dense_def mvalid_def)
qed

text \<open>The doubling loop returns a power of two that covers the request.\<close>

lemma bucket_limit_loop_pow2:
  "n < 2 ^ 63 \<Longrightarrow> e \<le> 63 \<Longrightarrow>
   \<exists>e'. e \<le> e' \<and> e' \<le> 63 \<and> bucket_limit_loop (2 ^ e) n = 2 ^ e' \<and> n \<le> 2 ^ e'
     \<and> (e < e' \<longrightarrow> 2 ^ e' < 2 * n)"
proof (induction "63 - e" arbitrary: e)
  case 0
  then have e63: "e = 63" by simp
  with 0 have "bucket_limit_loop (2 ^ e) n = 2 ^ e"
    by (subst bucket_limit_loop.simps) simp
  with 0 e63 show ?case by (intro exI[of _ e]) simp
next
  case (Suc x)
  show ?case
  proof (cases "2 ^ e < n")
    case False
    then have "bucket_limit_loop (2 ^ e) n = 2 ^ e"
      by (subst bucket_limit_loop.simps) simp
    with False Suc.prems show ?thesis by (intro exI[of _ e]) simp
  next
    case True
    then have unf: "bucket_limit_loop (2 ^ e) n = bucket_limit_loop (2 ^ Suc e) n"
      by (subst bucket_limit_loop.simps) (simp add: mult.commute)
    from Suc.hyps(2) have "x = 63 - Suc e" "Suc e \<le> 63" by simp_all
    from Suc.hyps(1)[OF this(1) Suc.prems(1) this(2)] obtain e' where e':
      "Suc e \<le> e'" "e' \<le> 63" "bucket_limit_loop (2 ^ Suc e) n = 2 ^ e'" "n \<le> 2 ^ e'"
      "Suc e < e' \<longrightarrow> 2 ^ e' < 2 * n" by blast
    have "2 ^ e' < 2 * n"
    proof (cases "Suc e < e'")
      case True
      with e'(5) show ?thesis by simp
    next
      case False
      with e'(1) have "e' = Suc e" by simp
      with True show ?thesis by simp
    qed
    with e' unf show ?thesis by (intro exI[of _ e']) simp
  qed
qed

lemma distinct_map_filter_nth:
  assumes "\<And>i j. i < j \<Longrightarrow> j < length xs \<Longrightarrow> P (xs ! i) \<Longrightarrow> P (xs ! j) \<Longrightarrow> f (xs ! i) \<noteq> f (xs ! j)"
  shows "distinct (map f (filter P xs))"
  using assms
proof (induction xs)
  case Nil
  then show ?case by simp
next
  case (Cons x xs)
  have tl: "distinct (map f (filter P xs))"
  proof (rule Cons.IH)
    fix i j assume "i < j" "j < length xs" "P (xs ! i)" "P (xs ! j)"
    with Cons.prems[of "Suc i" "Suc j"] show "f (xs ! i) \<noteq> f (xs ! j)" by simp
  qed
  show ?case
  proof (cases "P x")
    case False
    with tl show ?thesis by simp
  next
    case True
    have "f x \<notin> f ` set (filter P xs)"
    proof
      assume "f x \<in> f ` set (filter P xs)"
      then obtain y where y: "y \<in> set xs" "P y" "f y = f x" by auto
      then obtain j where j: "j < length xs" "xs ! j = y" by (auto simp: in_set_conv_nth)
      with Cons.prems[of 0 "Suc j"] True y show False by simp
    qed
    with tl True show ?thesis by simp
  qed
qed

lemma main_entries_distinct:
  assumes "main_ok h n mt" "length mt = n"
  shows "distinct (map fst (main_entries mt))"
proof -
  have "distinct (map mkey (filter mvalid mt))"
  proof (rule distinct_map_filter_nth)
    fix i j assume "i < j" "j < length mt" "mvalid (mt ! i)" "mvalid (mt ! j)"
    with assms have "h (mkey (mt ! i)) mod n = i" "h (mkey (mt ! j)) mod n = j"
      unfolding main_ok_def by auto
    with \<open>i < j\<close> show "mkey (mt ! i) \<noteq> mkey (mt ! j)" by auto
  qed
  moreover have "map fst (main_entries mt) = map mkey (filter mvalid mt)"
    by (simp add: main_entries_def mvalid_def[abs_def] comp_def)
  ultimately show ?thesis by simp
qed

lemma collision_entries_distinct:
  assumes "keys_ok n ct" "length ct = n"
  shows "distinct (map fst (collision_entries ct))"
proof -
  have "distinct (map ckey (filter cvalid ct))"
  proof (rule distinct_map_filter_nth)
    fix i j assume ij: "i < j" "j < length ct" "cvalid (ct ! i)" "cvalid (ct ! j)"
    show "ckey (ct ! i) \<noteq> ckey (ct ! j)"
    proof
      assume "ckey (ct ! i) = ckey (ct ! j)"
      moreover have "i < n" "j < n" using ij assms(2) by simp_all
      ultimately have "i = j" using assms(1) ij unfolding keys_ok_def by blast
      with ij show False by simp
    qed
  qed
  moreover have "map fst (collision_entries ct) = map ckey (filter cvalid ct)"
    by (simp add: collision_entries_def cvalid_def[abs_def] comp_def)
  ultimately show ?thesis by simp
qed

lemma main_collision_disjoint:
  assumes "main_ok h n mt" "coll_ok h n mt ct" "length mt = n" "length ct = n"
  shows "fst ` set (collision_entries ct) \<inter> fst ` set (main_entries mt) = {}"
proof (rule ccontr)
  assume "fst ` set (collision_entries ct) \<inter> fst ` set (main_entries mt) \<noteq> {}"
  then obtain k v v' where "(k, v) \<in> set (collision_entries ct)" "(k, v') \<in> set (main_entries mt)"
    by auto
  then obtain i j where i: "i < n" "mvalid (mt ! i)" "mkey (mt ! i) = k"
    and j: "j < n" "cvalid (ct ! j)" "ckey (ct ! j) = k"
    using assms(3,4) by (auto simp: in_main_entries in_collision_entries)
  from assms(1) i have "h k mod n = i" unfolding main_ok_def by auto
  moreover from assms(2) j have "h k mod n = main_index (ct ! j)"
    "ckey (ct ! j) \<noteq> mkey (mt ! main_index (ct ! j))" unfolding coll_ok_def by auto
  ultimately show False using i j by simp
qed

lemma count_entries:
  assumes "count_ok c n mt ct" "length mt = n" "length ct = n"
  shows "c = length (main_entries mt) + length (collision_entries ct)"
proof -
  have "length (main_entries mt) = card {i. i < n \<and> mvalid (mt ! i)}"
    using assms(2) by (simp add: main_entries_def mvalid_def length_filter_conv_card)
  moreover have "length (collision_entries ct) = card {j. j < n \<and> cvalid (ct ! j)}"
    using assms(3) by (simp add: collision_entries_def cvalid_def length_filter_conv_card)
  ultimately show ?thesis using assms(1) by (simp add: count_ok_def)
qed

lemma rehash_then_insert:
  "rehash_post cfg t t1 \<Longrightarrow> insert_post cfg t1 k v t2 \<Longrightarrow>
   insert_post cfg t k v t2 \<and> table_dense t2"
  by (auto simp: rehash_post_def insert_post_def)

text \<open>
  The body of \<open>try_insert\<close> after the lookup, for a key that is not stored: it stores the
  entry without changing the bucket count, or it is the growth path, or the probe does not end.
\<close>

lemma try_insert_at_cases:
  assumes inv: "table_inv cfg t" and nk: "k \<notin> fst ` entries t"
  shows "try_insert_at cfg f t k v (find_hm cfg t k) = try_insert_resize cfg f t k v (bucket_count t + 1)
    \<or> try_insert_at cfg f t k v (find_hm cfg t k) = None
    \<or> (\<exists>r. try_insert_at cfg f t k v (find_hm cfg t k) = Some (Inr r) \<and>
          insert_post cfg t k v (fst r) \<and> snd (snd r) \<and> bucket_count (fst r) = bucket_count t)"
proof -
  from inv obtain mt ct e where t: "main_table t = Some mt" "collision_table t = Some ct"
    and n: "bucket_count t = 2 ^ e" "e \<le> 63"
    by (elim table_invE)
  define n where "n = bucket_count t"
  define b where "b = hash_function cfg k mod n"
  define it where "it = find_hm cfg t k"
  have npos: "0 < n" using n by (simp add: n_def)
  have nle: "n \<le> 2 ^ 63" using inv unfolding n_def by (rule table_inv_le)
  have bn: "b < n" using npos by (simp add: b_def)
  have it_eq: "it = \<lparr>bucket_index = b,
     collision_index = (if mvalid (mainT t ! b) then (b + chain_length (mainT t ! b)) mod n
        else invalid_marker), value_ptr = None\<rparr>"
    unfolding it_def b_def n_def by (rule find_hm_absent[OF inv nk])
  show ?thesis
  proof (cases "mvalid (mainT t ! b)")
    case False
    then have res: "try_insert_at cfg f t k v it = Some (Inr (store_main t b k v))"
      by (simp add: try_insert_at.simps it_eq)
    from False have nv: "\<not> mvalid (mainT t ! (hash_function cfg k mod bucket_count t))"
      by (simp add: b_def n_def)
    note sm = store_main_inv[OF inv nv, of v]
    have "insert_post cfg t k v (fst (store_main t b k v))"
      unfolding insert_post_def using sm store_main_dense[OF inv _ nv, of v]
      by (auto simp: b_def n_def)
    moreover have "snd (snd (store_main t b k v))" by (simp add: store_main_def)
    moreover have "bucket_count (fst (store_main t b k v)) = bucket_count t"
      using sm(4) by (simp add: b_def n_def)
    ultimately show ?thesis using res unfolding it_def by auto
  next
    case True
    define s where "s = chain_length (mainT t ! b)"
    have ci: "collision_index it = (b + s) mod n" "bucket_index it = b"
      using True by (simp_all add: it_eq s_def)
    have cin: "(b + s) mod n < n" using npos by simp
    then have civ: "\<not> isInvalid (collision_index it)"
      using nle ci by (simp add: small_not_invalid)
    show ?thesis
    proof (cases "bucket_count t < 1048576 div sizeof_MainEntry cfg \<and> bucket_count t < element_count t * 4")
      case True
      with civ have "try_insert_at cfg f t k v it = try_insert_resize cfg f t k v (bucket_count t + 1)"
        by (simp add: try_insert_at.simps)
      then show ?thesis unfolding it_def by simp
    next
      case a: False
      show ?thesis
      proof (cases "probe ct (mask_of t) ((b + s) mod n) (s + 1) n")
        case None
        with civ a ci t have "try_insert_at cfg f t k v it = None"
          by (auto simp add: try_insert_at.simps s_def n_def)
        then show ?thesis unfolding it_def by simp
      next
        case (Some p)
        obtain idx cl where p: "p = (idx, cl)" by (cases p)
        show ?thesis
        proof (cases "(4 \<le> cl \<and> bucket_count t < 4194304 div sizeof_MainEntry cfg) \<or> bucket_count t div 2 \<le> cl")
          case True
          with civ a ci t Some p
          have "try_insert_at cfg f t k v it = try_insert_resize cfg f t k v (bucket_count t + 1)"
            by (auto simp add: try_insert_at.simps s_def n_def)
          then show ?thesis unfolding it_def by simp
        next
          case False
          with civ a ci t Some p
          have res: "try_insert_at cfg f t k v it = Some (Inr (store_collision t b idx cl k v))"
            by (auto simp add: try_insert_at.simps s_def n_def)
          from False have cln: "cl < n" unfolding n_def by linarith
          have pr: "probe ct (size_dec (2 ^ e)) ((b + s) mod 2 ^ e) (s + 1) n = Some (idx, cl)"
            using Some p n by (simp add: mask_of_def n_def)
          have "(b + s) mod 2 ^ e < (2::nat) ^ e" by simp
          from probe_Some[OF pr this] obtain d where d: "d < n"
            "idx = ((b + s) mod 2 ^ e + d) mod 2 ^ e" "cl = s + 1 + d" "\<not> cvalid (ct ! idx)"
            "\<forall>d' < d. cvalid (ct ! (((b + s) mod 2 ^ e + d') mod 2 ^ e))" by blast
          have n2: "n = 2 ^ e" using n by (simp add: n_def)
          have idx_eq: "idx = (b + (cl - 1)) mod n"
            using d(2,3) by (simp add: n2 mod_add_left_eq add.assoc)
          have idxn: "idx < n" using idx_eq npos by simp
          have skipped: "\<forall>x. s \<le> x \<and> x < cl - 1 \<longrightarrow> cvalid (ct ! ((b + x) mod n))"
          proof (intro allI impI)
            fix x assume x: "s \<le> x \<and> x < cl - 1"
            then have "x - s < d" using d(3) by auto
            with d(5) have "cvalid (ct ! (((b + s) mod 2 ^ e + (x - s)) mod 2 ^ e))" by simp
            moreover have "((b + s) mod 2 ^ e + (x - s)) mod 2 ^ e = (b + s + (x - s)) mod 2 ^ e"
              by (rule mod_add_left_eq)
            moreover have "b + s + (x - s) = b + x" using x by auto
            ultimately show "cvalid (ct ! ((b + x) mod n))" by (simp add: n2)
          qed
          have A: "b = hash_function cfg k mod bucket_count t" by (simp add: b_def n_def)
          have B: "idx < bucket_count t" "\<not> cvalid (collT t ! idx)"
            "idx = (b + (cl - 1)) mod bucket_count t"
            using idxn d(4) idx_eq t by (simp_all add: n_def)
          have C: "chain_length (mainT t ! b) < cl" "cl < bucket_count t"
            using d(3) cln by (simp_all add: s_def n_def)
          note sc = store_collision_inv[OF inv A True nk B C, of v]
          have D: "\<forall>d. chain_length (mainT t ! b) \<le> d \<and> d < cl - 1 \<longrightarrow>
              cvalid (collT t ! ((b + d) mod bucket_count t))"
            using skipped t by (simp add: s_def n_def)
          have bb: "b < bucket_count t" using bn by (simp add: n_def)
          have "insert_post cfg t k v (fst (store_collision t b idx cl k v))"
            unfolding insert_post_def
            using sc store_collision_dense[OF inv _ bb B(1,3) C D, of k v] by auto
          moreover have "snd (snd (store_collision t b idx cl k v))"
            by (simp add: store_collision_def)
          ultimately show ?thesis using res sc(4) unfolding it_def by auto
        qed
      qed
    qed
  qed
qed

lemma table_ok_cases:
  assumes "table_ok cfg t"
  obtains (unalloc) "unallocated t" "main_table t = None" "entries t = {}"
      "element_count t = 0" "bucket_count t = 0"
  | (alloc) "table_inv cfg t" "main_table t \<noteq> None"
  using assms unfolding table_ok_def
  by (auto simp: unallocated_def entries_def table_inv_def)

lemma step_try_insert_at:
  assumes "try_insert_resize_spec cfg f"
  shows "try_insert_at_spec cfg f"
  unfolding try_insert_at_spec_def
proof (intro allI impI)
  fix t k v r
  assume inv: "table_inv cfg t" and nk: "k \<notin> fst ` entries t"
    and res: "try_insert_at cfg f t k v (find_hm cfg t k) = Some (Inr r)"
  from try_insert_at_cases[OF inv nk, of f v] res
  consider (grow) "try_insert_resize cfg f t k v (bucket_count t + 1) = Some (Inr r)"
    | (store) "insert_post cfg t k v (fst r)" "snd (snd r)"
    by auto
  then show "insert_post cfg t k v (fst r) \<and> snd (snd r)"
  proof cases
    case grow
    with assms inv nk show ?thesis unfolding try_insert_resize_spec_def by blast
  next
    case store
    then show ?thesis by simp
  qed
qed

lemma step_try_insert_resize:
  assumes rs: "reserve_spec cfg f" and pl: "try_insert_at_spec cfg f"
  shows "try_insert_resize_spec cfg (Suc f)"
  unfolding try_insert_resize_spec_def
proof (intro allI impI)
  fix t k v nb r
  assume inv: "table_inv cfg t" and nk: "k \<notin> fst ` entries t"
    and res: "try_insert_resize cfg (Suc f) t k v nb = Some (Inr r)"
  from res obtain t1 where r1: "reserve cfg f t nb = Some (Inr t1)"
    and r2: "try_insert_at cfg f t1 k v (find_hm cfg t1 k) = Some (Inr r)"
    by (auto split: option.splits sum.splits)
  have "table_ok cfg t" using inv by (simp add: table_ok_def)
  with rs r1 have rp: "rehash_post cfg t t1" and nb: "nb \<le> bucket_count t1"
    unfolding reserve_spec_def by blast+
  then have inv1: "table_inv cfg t1" and nk1: "k \<notin> fst ` entries t1"
    using nk by (simp_all add: rehash_post_def)
  from pl inv1 nk1 r2 have ip: "insert_post cfg t1 k v (fst r)" and ins: "snd (snd r)"
    unfolding try_insert_at_spec_def by blast+
  from rehash_then_insert[OF rp ip] ins nb ip
  show "insert_post cfg t k v (fst r) \<and> snd (snd r) \<and> nb \<le> bucket_count (fst r) \<and> table_dense (fst r)"
    by (auto simp: insert_post_def)
qed

lemma step_reserve:
  assumes rt: "resize_table_spec cfg f"
  shows "reserve_spec cfg f"
  unfolding reserve_spec_def
proof (intro allI impI)
  fix t n t'
  assume ok: "table_ok cfg t" and res: "reserve cfg f t n = Some (Inr t')"
  from res have small: "\<not> size_max div 2 \<le> n"
    by (auto simp: reserve.simps split: if_splits)
  then have n63: "n < 2 ^ 63" by (simp add: size_max_def)
  obtain e where e: "e \<le> 63" "(if bucket_count t = 0 then 1 else bucket_count t) = 2 ^ e"
    "bucket_count t \<le> 2 ^ e"
    using ok
  proof (cases rule: table_ok_cases)
    case unalloc
    then show ?thesis using that[of 0] by simp
  next
    case alloc
    from alloc(1) obtain e where "bucket_count t = 2 ^ e" "e \<le> 63" by (elim table_invE)
    then show ?thesis using that[of e] by simp
  qed
  from bucket_limit_loop_pow2[OF n63 e(1)] obtain e' where e': "e \<le> e'" "e' \<le> 63"
    "bucket_limit_loop (2 ^ e) n = 2 ^ e'" "n \<le> 2 ^ e'" by blast
  from res small e(2) e'(3) have r: "resize_table cfg f t (2 ^ e') = Some (Inr t')"
    by (simp add: reserve.simps)
  have "bucket_count t \<le> 2 ^ e'"
    using e(3) e'(1) by (meson le_trans one_le_numeral power_increasing)
  with rt ok e'(2) r have "rehash_post cfg t t'" "2 ^ e' \<le> bucket_count t'"
    unfolding resize_table_spec_def by blast+
  with e'(4) show "rehash_post cfg t t' \<and> n \<le> bucket_count t'" by simp
qed

lemma step_reinsert:
  assumes ti: "try_insert_spec cfg f"
  shows "reinsert_spec cfg f"
  unfolding reinsert_spec_def
proof (intro allI impI)
  fix t kvs t'
  assume "table_inv cfg t" "distinct (map fst kvs)" "fst ` set kvs \<inter> fst ` entries t = {}"
    "reinsert cfg f t kvs = Some (Inr t')"
  then show "table_inv cfg t' \<and> entries t' = entries t \<union> set kvs \<and>
        element_count t' = element_count t + length kvs \<and>
        bucket_count t \<le> bucket_count t' \<and> (table_dense t \<longrightarrow> table_dense t')"
  proof (induction kvs arbitrary: t)
    case Nil
    then show ?case by simp
  next
    case (Cons kv kvs)
    obtain k v where kv: "kv = (k, v)" by (cases kv)
    from Cons.prems(4) obtain r where r1: "try_insert cfg f t k v = Some (Inr r)"
      and r2: "reinsert cfg f (fst r) kvs = Some (Inr t')"
      unfolding kv by (auto split: option.splits sum.splits)
    have nk: "k \<notin> fst ` entries t" using Cons.prems(3) kv by auto
    have "table_ok cfg t" using Cons.prems(1) by (simp add: table_ok_def)
    with ti r1 nk have ip: "insert_post cfg t k v (fst r)"
      unfolding try_insert_spec_def by (metis (full_types))
    then have inv1: "table_inv cfg (fst r)" and en: "entries (fst r) = insert (k, v) (entries t)"
      and cn: "element_count (fst r) = Suc (element_count t)"
      and bc: "bucket_count t \<le> bucket_count (fst r)"
      and dn: "table_dense t \<longrightarrow> table_dense (fst r)"
      by (simp_all add: insert_post_def)
    have d1: "distinct (map fst kvs)" using Cons.prems(2) by simp
    have d2: "fst ` set kvs \<inter> fst ` entries (fst r) = {}"
      using Cons.prems(2,3) kv en by auto
    from Cons.IH[OF inv1 d1 d2 r2] en cn bc dn kv show ?case by auto
  qed
qed

lemma step_resize_table:
  assumes ri: "reinsert_spec cfg f"
  shows "resize_table_spec cfg (Suc f)"
  unfolding resize_table_spec_def
proof (intro allI impI)
  fix t e t'
  assume ok: "table_ok cfg t" and e: "e \<le> 63" and le: "bucket_count t \<le> 2 ^ e"
    and res: "resize_table cfg (Suc f) t (2 ^ e) = Some (Inr t')"
  note fr = fresh_table_inv[OF e, of cfg]
  have bcf: "bucket_count (fresh_table cfg (2 ^ e)) = 2 ^ e"
    and cf: "element_count (fresh_table cfg (2 ^ e)) = 0"
    by (simp_all add: fresh_table_def)
  show "rehash_post cfg t t' \<and> 2 ^ e \<le> bucket_count t'"
    using ok
  proof (cases rule: table_ok_cases)
    case unalloc
    with res have "t' = fresh_table cfg (2 ^ e)"
      by (simp add: pow2_and_size_dec)
    with unalloc fr bcf cf show ?thesis by (simp add: rehash_post_def)
  next
    case alloc
    from alloc(1) obtain mt ct where t: "main_table t = Some mt" "collision_table t = Some ct"
      and n: "length mt = bucket_count t" "length ct = bucket_count t"
      and mok: "main_ok (hash_function cfg) (bucket_count t) mt"
      and cok: "coll_ok (hash_function cfg) (bucket_count t) mt ct"
      and kok: "keys_ok (bucket_count t) ct"
      and cnt: "count_ok (element_count t) (bucket_count t) mt ct"
      by (elim table_invE)
    from res t obtain t1 where
      r1: "reinsert cfg f (fresh_table cfg (2 ^ e)) (main_entries mt) = Some (Inr t1)"
      and r2: "reinsert cfg f t1 (collision_entries ct) = Some (Inr t')"
      by (auto simp: pow2_and_size_dec split: option.splits sum.splits)
    have "distinct (map fst (main_entries mt))" using mok n(1) by (rule main_entries_distinct)
    with ri fr(1) r1 fr(2)
    have p1: "table_inv cfg t1" "entries t1 = set (main_entries mt)"
      "element_count t1 = length (main_entries mt)" "2 ^ e \<le> bucket_count t1" "table_dense t1"
      unfolding reinsert_spec_def using bcf cf fr(3) by (metis (no_types, lifting) Int_empty_right add_0 image_empty sup_bot_left)+
    have "distinct (map fst (collision_entries ct))" using kok n(2) by (rule collision_entries_distinct)
    moreover have "fst ` set (collision_entries ct) \<inter> fst ` entries t1 = {}"
      using main_collision_disjoint[OF mok cok n] p1(2) by simp
    ultimately have p2: "table_inv cfg t'" "entries t' = entries t1 \<union> set (collision_entries ct)"
      "element_count t' = element_count t1 + length (collision_entries ct)"
      "bucket_count t1 \<le> bucket_count t'" "table_dense t'"
      using ri p1(1) r2 p1(5) unfolding reinsert_spec_def by blast+
    have "entries t = set (main_entries mt) \<union> set (collision_entries ct)"
      using t by (simp add: entries_def)
    moreover have "element_count t = length (main_entries mt) + length (collision_entries ct)"
      using cnt n by (rule count_entries)
    ultimately show ?thesis using p1 p2 le by (simp add: rehash_post_def)
  qed
qed

lemma step_try_insert:
  assumes rs: "reserve_spec cfg f" and rg: "try_insert_resize_spec cfg f"
    and pl: "try_insert_at_spec cfg f"
  shows "try_insert_spec cfg f"
  unfolding try_insert_spec_def
proof (intro allI impI)
  fix t k v r
  assume ok: "table_ok cfg t" and res: "try_insert cfg f t k v = Some (Inr r)"
  show "if k \<in> fst ` entries t then r = (t, find_hm cfg t k, False)
         else insert_post cfg t k v (fst r) \<and> snd (snd r)"
    using ok
  proof (cases rule: table_ok_cases)
    case unalloc
    from res unalloc(2) obtain t1 where r1: "reserve cfg f t 16 = Some (Inr t1)"
      by (auto simp: try_insert.simps split: option.splits sum.splits)
    with rs ok have rp: "rehash_post cfg t t1" and bc: "16 \<le> bucket_count t1"
      unfolding reserve_spec_def by blast+
    then have inv1: "table_inv cfg t1" and e1: "entries t1 = {}" and c1: "element_count t1 = 0"
      using unalloc by (simp_all add: rehash_post_def)
    have nf: "value_ptr (find_hm cfg t1 k) = None"
      using find_hm_found_iff[OF inv1, of k] e1 by simp
    from res unalloc(2) r1 nf c1 bc
    have r2: "try_insert_at cfg f t1 k v (find_hm cfg t1 k) = Some (Inr r)"
      by (simp add: try_insert.simps Let_def)
    have nk1: "k \<notin> fst ` entries t1" using e1 by simp
    from pl inv1 nk1 r2 have "insert_post cfg t1 k v (fst r)" "snd (snd r)"
      unfolding try_insert_at_spec_def by blast+
    with rehash_then_insert[OF rp] unalloc(3) show ?thesis by simp
  next
    case alloc
    show ?thesis
    proof (cases "k \<in> fst ` entries t")
      case True
      then have "value_ptr (find_hm cfg t k) \<noteq> None"
        using find_hm_found_iff[OF alloc(1)] by simp
      with res alloc(2) True show ?thesis
        by (auto simp: try_insert.simps Let_def)
    next
      case False
      then have nf: "value_ptr (find_hm cfg t k) = None"
        using find_hm_found_iff[OF alloc(1), of k] by simp
      show ?thesis
      proof (cases "bucket_count t < element_count t + 1")
        case True
        with res alloc(2) nf
        have "try_insert_resize cfg f t k v (element_count t + 1) = Some (Inr r)"
          by (auto simp: try_insert.simps Let_def)
        with rg alloc(1) False have "insert_post cfg t k v (fst r) \<and> snd (snd r)"
          unfolding try_insert_resize_spec_def by blast
        with False show ?thesis by simp
      next
        case nres: False
        with res alloc(2) nf
        have "try_insert_at cfg f t k v (find_hm cfg t k) = Some (Inr r)"
          by (auto simp: try_insert.simps Let_def)
        with pl alloc(1) False have "insert_post cfg t k v (fst r) \<and> snd (snd r)"
          unfolding try_insert_at_spec_def by blast
        with False show ?thesis by simp
      qed
    qed
  qed
qed

lemma all_specs:
  "resize_table_spec cfg f \<and> reserve_spec cfg f \<and> try_insert_resize_spec cfg f \<and>
   try_insert_at_spec cfg f \<and> try_insert_spec cfg f \<and> reinsert_spec cfg f"
proof (induction f)
  case 0
  have rt: "resize_table_spec cfg 0" by (simp add: resize_table_spec_def)
  have rg: "try_insert_resize_spec cfg 0" by (simp add: try_insert_resize_spec_def)
  note rs = step_reserve[OF rt]
  note pl = step_try_insert_at[OF rg]
  note ti = step_try_insert[OF rs rg pl]
  note ri = step_reinsert[OF ti]
  from rt rs rg pl ti ri show ?case by simp
next
  case (Suc f)
  then have rt: "resize_table_spec cfg (Suc f)" by (simp add: step_resize_table)
  from Suc have rg: "try_insert_resize_spec cfg (Suc f)" by (simp add: step_try_insert_resize)
  note rs = step_reserve[OF rt]
  note pl = step_try_insert_at[OF rg]
  note ti = step_try_insert[OF rs rg pl]
  note ri = step_reinsert[OF ti]
  from rt rs rg pl ti ri show ?case by simp
qed

lemma walk_back_le: "walk_back ct msk b len \<le> len"
  by (induction len) auto

lemma walk_back_tail:
  "0 < walk_back ct (size_dec (2 ^ e)) b len \<Longrightarrow>
   main_index (ct ! ((b + (walk_back ct (size_dec (2 ^ e)) b len - 1)) mod 2 ^ e)) = b"
  by (induction len) (auto simp: and_size_dec_pow2 split: if_splits)

lemma walk_back_skipped:
  "walk_back ct (size_dec (2 ^ e)) b len \<le> d \<Longrightarrow> d < len \<Longrightarrow>
   main_index (ct ! ((b + d) mod 2 ^ e)) \<noteq> b"
proof (induction len)
  case 0
  then show ?case by simp
next
  case (Suc len)
  show ?case
  proof (cases "main_index (ct ! ((b + len) mod 2 ^ e)) \<noteq> b")
    case True
    with Suc show ?thesis
      by (cases "d = len") (auto simp: and_size_dec_pow2)
  next
    case False
    with Suc.prems show ?thesis by (simp add: and_size_dec_pow2)
  qed
qed

lemma size_dec_pos: "0 < x \<Longrightarrow> size_dec x = x - 1"
  by (simp add: size_dec_def)

lemma count_pos_main:
  assumes "count_ok c n mt ct" "b < n" "mvalid (mt ! b)"
  shows "0 < c"
proof -
  have "b \<in> {i. i < n \<and> mvalid (mt ! i)}" using assms by simp
  moreover have "finite {i. i < n \<and> mvalid (mt ! i)}" by simp
  ultimately have "0 < card {i. i < n \<and> mvalid (mt ! i)}" using card_gt_0_iff by blast
  with assms(1) show ?thesis by (simp add: count_ok_def)
qed

text \<open>The three shapes of \<open>remove\<close> at a cursor that \<open>find\<close> returned.\<close>

lemma remove_iter_main_single:
  assumes "main_table t = Some mt" "chain_length (mt ! b) = 0"
  shows "fst (remove_iter t \<lparr>bucket_index = b, collision_index = invalid_marker, value_ptr = p\<rparr>) =
    t\<lparr>element_count := size_dec (element_count t),
      main_table := Some (mt[b := (mt ! b)\<lparr>chain_length := invalid_marker\<rparr>])\<rparr>"
  using assms by (simp add: remove_iter_def Let_def)

lemma remove_iter_main_chain:
  assumes "main_table t = Some mt" "collision_table t = Some ct" "chain_length (mt ! b) \<noteq> 0"
    "bucket_count t = 2 ^ e"
  shows "fst (remove_iter t \<lparr>bucket_index = b, collision_index = invalid_marker, value_ptr = p\<rparr>) =
    (let ti = (b + (chain_length (mt ! b) - 1)) mod 2 ^ e;
         ct' = ct[ti := (ct ! ti)\<lparr>main_index := invalid_marker\<rparr>]
     in t\<lparr>element_count := size_dec (element_count t),
          main_table := Some (mt[b := \<lparr>mkey = ckey (ct ! ti), mval = cval (ct ! ti),
             chain_length = walk_back ct' (size_dec (2 ^ e)) b (chain_length (mt ! b) - 1)\<rparr>]),
          collision_table := Some ct'\<rparr>)"
  using assms by (simp add: remove_iter_def Let_def mask_of_def and_size_dec_pow2)

lemma remove_iter_collision:
  assumes "main_table t = Some mt" "collision_table t = Some ct" "chain_length (mt ! b) \<noteq> 0"
    "bucket_count t = 2 ^ e" "\<not> isInvalid j" "\<not> isInvalid b"
  shows "fst (remove_iter t \<lparr>bucket_index = b, collision_index = j, value_ptr = p\<rparr>) =
    (let ti = (b + (chain_length (mt ! b) - 1)) mod 2 ^ e;
         ct1 = (if ti = j then ct else ct[j := (ct ! j)\<lparr>ckey := ckey (ct ! ti), cval := cval (ct ! ti)\<rparr>]);
         ct2 = ct1[ti := (ct1 ! ti)\<lparr>main_index := invalid_marker\<rparr>]
     in t\<lparr>element_count := size_dec (element_count t),
          main_table := Some (mt[b := (mt ! b)\<lparr>chain_length :=
             walk_back ct2 (size_dec (2 ^ e)) b (chain_length (mt ! b) - 1)\<rparr>]),
          collision_table := Some ct2\<rparr>)"
proof -
  have sd: "size_dec (chain_length (mt ! b)) = chain_length (mt ! b) - 1"
    using assms(3) by (simp add: size_dec_def)
  show ?thesis
    using assms by (simp add: remove_iter_def Let_def mask_of_def and_size_dec_pow2 sd)
qed

lemma coll_okD:
  assumes "coll_ok h n mt ct" "j < n" "cvalid (ct ! j)"
  shows "main_index (ct ! j) < n" "mvalid (mt ! main_index (ct ! j))"
    "h (ckey (ct ! j)) mod n = main_index (ct ! j)"
    "ckey (ct ! j) \<noteq> mkey (mt ! main_index (ct ! j))"
    "(j + n - main_index (ct ! j)) mod n < chain_length (mt ! main_index (ct ! j))"
  using assms unfolding coll_ok_def by auto

lemma main_okD:
  assumes "main_ok h n mt" "i < n" "mvalid (mt ! i)"
  shows "h (mkey (mt ! i)) mod n = i" "chain_length (mt ! i) < n"
  using assms unfolding main_ok_def by auto

lemma remove_main_single_inv:
  assumes inv: "table_inv cfg t" and t: "main_table t = Some mt"
    and b: "b < bucket_count t" and mv: "mvalid (mt ! b)" and s0: "chain_length (mt ! b) = 0"
  defines "t' \<equiv> t\<lparr>element_count := size_dec (element_count t),
      main_table := Some (mt[b := (mt ! b)\<lparr>chain_length := invalid_marker\<rparr>])\<rparr>"
  shows "table_inv cfg t'"
    and "entries t' = {p \<in> entries t. fst p \<noteq> mkey (mt ! b)}"
    and "Suc (element_count t') = element_count t"
    and "bucket_count t' = bucket_count t"
    and "table_dense t \<Longrightarrow> table_dense t'"
proof -
  from inv t obtain ct e where tc: "collision_table t = Some ct"
    and n: "bucket_count t = 2 ^ e" "e \<le> 63" "length mt = bucket_count t" "length ct = bucket_count t"
    and mok: "main_ok (hash_function cfg) (bucket_count t) mt"
    and cok: "coll_ok (hash_function cfg) (bucket_count t) mt ct"
    and tok: "tail_ok (bucket_count t) mt ct"
    and kok: "keys_ok (bucket_count t) ct"
    and cnt: "count_ok (element_count t) (bucket_count t) mt ct"
    by (auto elim!: table_invE)
  define n where "n = bucket_count t"
  define h where "h = hash_function cfg"
  define mt' where "mt' = mt[b := (mt ! b)\<lparr>chain_length := invalid_marker\<rparr>]"
  note mok = mok[folded n_def h_def] and cok = cok[folded n_def h_def]
    and tok = tok[folded n_def] and kok = kok[folded n_def] and cnt = cnt[folded n_def]
  have bn: "b < n" using b by (simp add: n_def)
  have len: "length mt = n" "length ct = n" using n by (simp_all add: n_def)
  have t'_eq: "t' = t\<lparr>element_count := size_dec (element_count t), main_table := Some mt'\<rparr>"
    by (simp add: t'_def mt'_def)
  have others: "\<And>i. i \<noteq> b \<Longrightarrow> mt' ! i = mt ! i" by (simp add: mt'_def)
  have atb: "\<not> mvalid (mt' ! b)" using bn len by (simp add: mt'_def)
  have owner_ne: "\<And>j. j < n \<Longrightarrow> cvalid (ct ! j) \<Longrightarrow> main_index (ct ! j) \<noteq> b"
    using coll_okD(5)[OF cok] s0 by fastforce
  have mok': "main_ok h n mt'"
    unfolding main_ok_def
  proof (intro allI impI)
    fix i assume "i < n" "mvalid (mt' ! i)"
    then show "h (mkey (mt' ! i)) mod n = i \<and> chain_length (mt' ! i) < n"
      using main_okD[OF mok, of i] atb others[of i] by (cases "i = b") auto
  qed
  have cok': "coll_ok h n mt' ct"
    unfolding coll_ok_def
  proof (intro allI impI)
    fix j assume j: "j < n" "cvalid (ct ! j)"
    from others[OF owner_ne[OF j]] coll_okD[OF cok j]
    show "main_index (ct ! j) < n \<and> mvalid (mt' ! main_index (ct ! j)) \<and>
        h (ckey (ct ! j)) mod n = main_index (ct ! j) \<and>
        ckey (ct ! j) \<noteq> mkey (mt' ! main_index (ct ! j)) \<and>
        (j + n - main_index (ct ! j)) mod n < chain_length (mt' ! main_index (ct ! j))"
      by simp
  qed
  have tok': "tail_ok n mt' ct"
    unfolding tail_ok_def
  proof (intro allI impI)
    fix i assume "i < n" "mvalid (mt' ! i) \<and> 0 < chain_length (mt' ! i)"
    then show "main_index (ct ! ((i + chain_length (mt' ! i) - 1) mod n)) = i"
      using tok atb others[of i] unfolding tail_ok_def by (cases "i = b") auto
  qed
  have cpos: "0 < element_count t" using cnt bn mv by (rule count_pos_main)
  have cnt': "count_ok (element_count t') n mt' ct"
    using cnt card_upd_lose[of b n mt mvalid "(mt ! b)\<lparr>chain_length := invalid_marker\<rparr>"] bn len mv cpos
    unfolding count_ok_def t'_eq mt'_def by (simp add: size_dec_pos)
  have "shape_ok n mt' ct" using n len unfolding shape_ok_def mt'_def n_def by auto
  with mok' cok' tok' kok cnt' tc show "table_inv cfg t'"
    unfolding table_inv_def by (simp add: t'_eq n_def h_def)
  show "Suc (element_count t') = element_count t" using cpos by (simp add: t'_eq size_dec_pos)
  show "bucket_count t' = bucket_count t" by (simp add: t'_eq)
  have t't: "main_table t' = Some mt'" "collision_table t' = Some ct" using tc by (simp_all add: t'_eq)
  show "entries t' = {p \<in> entries t. fst p \<noteq> mkey (mt ! b)}"
  proof (intro set_eqI iffI)
    fix p assume p: "p \<in> entries t'"
    obtain k v where kv: "p = (k, v)" by (cases p)
    from p consider i where "i < n" "mvalid (mt' ! i)" "mkey (mt' ! i) = k" "mval (mt' ! i) = v"
      | j where "j < n" "cvalid (ct ! j)" "ckey (ct ! j) = k" "cval (ct ! j) = v"
      unfolding kv entries_iff[OF t't] using len by (auto simp: mt'_def)
    then show "p \<in> {p \<in> entries t. fst p \<noteq> mkey (mt ! b)}"
    proof cases
      case 1
      with atb have ib: "i \<noteq> b" by auto
      with 1 others have old: "mvalid (mt ! i)" "mkey (mt ! i) = k" "mval (mt ! i) = v" by simp_all
      with 1(1) len have "(k, v) \<in> entries t"
        unfolding entries_iff[OF t tc] by auto
      moreover have "k \<noteq> mkey (mt ! b)"
        using main_okD(1)[OF mok 1(1) old(1)] main_okD(1)[OF mok bn mv] ib old(2) by auto
      ultimately show ?thesis by (simp add: kv)
    next
      case 2
      with len have "(k, v) \<in> entries t" unfolding entries_iff[OF t tc] by auto
      moreover have "k \<noteq> mkey (mt ! b)"
        using coll_okD(3)[OF cok 2(1,2)] owner_ne[OF 2(1,2)] main_okD(1)[OF mok bn mv] 2(3) by auto
      ultimately show ?thesis by (simp add: kv)
    qed
  next
    fix p assume p: "p \<in> {p \<in> entries t. fst p \<noteq> mkey (mt ! b)}"
    obtain k v where kv: "p = (k, v)" by (cases p)
    from p have ne: "k \<noteq> mkey (mt ! b)" by (simp add: kv)
    from p consider i where "i < n" "mvalid (mt ! i)" "mkey (mt ! i) = k" "mval (mt ! i) = v"
      | j where "j < n" "cvalid (ct ! j)" "ckey (ct ! j) = k" "cval (ct ! j) = v"
      unfolding kv using entries_iff[OF t tc, of k v] len by auto
    then show "p \<in> entries t'"
    proof cases
      case 1
      with ne have "i \<noteq> b" by auto
      with 1 others have "mvalid (mt' ! i)" "mkey (mt' ! i) = k" "mval (mt' ! i) = v" by simp_all
      with 1(1) len show ?thesis unfolding kv entries_iff[OF t't] by (auto simp: mt'_def)
    next
      case 2
      with len show ?thesis unfolding kv entries_iff[OF t't] by auto
    qed
  qed
  show "table_dense t'" if "table_dense t"
  proof -
    from that t tc have dn: "dense n mt ct" by (simp add: table_dense_def n_def)
    have "dense n mt' ct"
      unfolding dense_def
    proof (intro allI impI)
      fix i d assume "i < n" "mvalid (mt' ! i)" "d < chain_length (mt' ! i)"
      then show "cvalid (ct ! ((i + d) mod n))"
        using dn atb others[of i] unfolding dense_def by (cases "i = b") auto
    qed
    then show ?thesis using t't by (simp add: table_dense_def t'_eq n_def)
  qed
qed

lemma span_after_clear:
  fixes ct2 :: "('k, 'v) CollisionEntry list"
  assumes e: "e \<le> 63" and bn: "b < 2 ^ e" and s: "0 < s" "s < 2 ^ e"
    and cleared: "main_index (ct2 ! ((b + (s - 1)) mod 2 ^ e)) = invalid_marker"
    and in_span: "\<forall>j < 2 ^ e. main_index (ct2 ! j) = b \<longrightarrow> (j + 2 ^ e - b) mod 2 ^ e < s"
  defines "s' \<equiv> walk_back ct2 (size_dec (2 ^ e)) b (s - 1)"
  shows "s' < s"
    and "0 < s' \<Longrightarrow> main_index (ct2 ! ((b + (s' - 1)) mod 2 ^ e)) = b"
    and "\<forall>j < 2 ^ e. main_index (ct2 ! j) = b \<longrightarrow> (j + 2 ^ e - b) mod 2 ^ e < s'"
proof -
  have "s' \<le> s - 1" unfolding s'_def by (rule walk_back_le)
  with s(1) show "s' < s" by simp
  show "0 < s' \<Longrightarrow> main_index (ct2 ! ((b + (s' - 1)) mod 2 ^ e)) = b"
    unfolding s'_def by (rule walk_back_tail)
  have bv: "b \<noteq> invalid_marker"
    using small_not_invalid[OF bn pow2_le_63[OF e]] by (simp add: isInvalid_def)
  show "\<forall>j < 2 ^ e. main_index (ct2 ! j) = b \<longrightarrow> (j + 2 ^ e - b) mod 2 ^ e < s'"
  proof (intro allI impI)
    fix j :: nat assume j: "j < 2 ^ e" "main_index (ct2 ! j) = b"
    define d where "d = (j + 2 ^ e - b) mod 2 ^ e"
    have pos: "(b + d) mod 2 ^ e = j" unfolding d_def using bn j(1) by (rule pos_of_off)
    from in_span j have ds: "d < s" by (simp add: d_def)
    have "d \<noteq> s - 1"
    proof
      assume "d = s - 1"
      with pos cleared j(2) bv show False by simp
    qed
    with ds have d1: "d < s - 1" by simp
    show "(j + 2 ^ e - b) mod 2 ^ e < s'"
    proof (rule ccontr)
      assume "\<not> (j + 2 ^ e - b) mod 2 ^ e < s'"
      then have "s' \<le> d" by (simp add: d_def)
      from walk_back_skipped[OF this[unfolded s'_def] d1] pos j(2) show False by simp
    qed
  qed
qed

lemma remove_main_chain_inv:
  assumes inv: "table_inv cfg t" and t: "main_table t = Some mt" "collision_table t = Some ct"
    and n: "bucket_count t = 2 ^ e"
    and b: "b < bucket_count t" and mv: "mvalid (mt ! b)" and s0: "chain_length (mt ! b) \<noteq> 0"
  defines "ti \<equiv> (b + (chain_length (mt ! b) - 1)) mod 2 ^ e"
  defines "ct' \<equiv> ct[ti := (ct ! ti)\<lparr>main_index := invalid_marker\<rparr>]"
  defines "t' \<equiv> t\<lparr>element_count := size_dec (element_count t),
          main_table := Some (mt[b := \<lparr>mkey = ckey (ct ! ti), mval = cval (ct ! ti),
             chain_length = walk_back ct' (size_dec (2 ^ e)) b (chain_length (mt ! b) - 1)\<rparr>]),
          collision_table := Some ct'\<rparr>"
  shows "table_inv cfg t'"
    and "entries t' = {p \<in> entries t. fst p \<noteq> mkey (mt ! b)}"
    and "Suc (element_count t') = element_count t"
    and "bucket_count t' = bucket_count t"
proof -
  from inv t n obtain e63: "e \<le> 63" and len0: "length mt = bucket_count t" "length ct = bucket_count t"
    and mok: "main_ok (hash_function cfg) (bucket_count t) mt"
    and cok: "coll_ok (hash_function cfg) (bucket_count t) mt ct"
    and tok: "tail_ok (bucket_count t) mt ct"
    and kok: "keys_ok (bucket_count t) ct"
    and cnt: "count_ok (element_count t) (bucket_count t) mt ct"
    by (auto elim!: table_invE)
  define h where "h = hash_function cfg"
  define s where "s = chain_length (mt ! b)"
  define s' where "s' = walk_back ct' (size_dec (2 ^ e)) b (s - 1)"
  define mt' where "mt' = mt[b := \<lparr>mkey = ckey (ct ! ti), mval = cval (ct ! ti), chain_length = s'\<rparr>]"
  note mok = mok[unfolded n, folded h_def] and cok = cok[unfolded n, folded h_def]
    and tok = tok[unfolded n] and kok = kok[unfolded n] and cnt = cnt[unfolded n]
  have bn: "b < 2 ^ e" using b n by simp
  have len: "length mt = 2 ^ e" "length ct = 2 ^ e" using len0 n by simp_all
  have nle: "(2::nat) ^ e \<le> 2 ^ 63" using e63 by (rule pow2_le_63)
  have spos: "0 < s" using s0 by (simp add: s_def)
  have sn: "s < 2 ^ e" using main_okD(2)[OF mok bn mv] by (simp add: s_def)
  have tin: "ti < 2 ^ e" by (simp add: ti_def)
  have ti_own: "main_index (ct ! ti) = b"
    using tok bn mv spos unfolding tail_ok_def ti_def s_def by simp
  have bv: "\<not> isInvalid b" using bn nle by (rule small_not_invalid)
  have ti_valid: "cvalid (ct ! ti)" using ti_own bv by (simp add: cvalid_def)
  note tiD = coll_okD[OF cok tin ti_valid, unfolded ti_own]
  have t'_eq: "t' = t\<lparr>element_count := size_dec (element_count t), main_table := Some mt',
      collision_table := Some ct'\<rparr>"
    by (simp add: t'_def mt'_def s'_def s_def)
  have c_others: "\<And>j. j \<noteq> ti \<Longrightarrow> ct' ! j = ct ! j" by (simp add: ct'_def)
  have c_at: "main_index (ct' ! ti) = invalid_marker" using tin len by (simp add: ct'_def)
  have c_valid: "\<And>j. j < 2 ^ e \<Longrightarrow> cvalid (ct' ! j) \<longleftrightarrow> j \<noteq> ti \<and> cvalid (ct ! j)"
    using c_others c_at by (metis cvalid_def isInvalid_marker)
  have in_span: "\<forall>j < 2 ^ e. main_index (ct' ! j) = b \<longrightarrow> (j + 2 ^ e - b) mod 2 ^ e < s"
  proof (intro allI impI)
    fix j :: nat assume j: "j < 2 ^ e" "main_index (ct' ! j) = b"
    with bv have "cvalid (ct' ! j)" by (simp add: cvalid_def)
    with c_valid[OF j(1)] c_others j(2) have "cvalid (ct ! j)" "main_index (ct ! j) = b" by auto
    with coll_okD(5)[OF cok j(1)] show "(j + 2 ^ e - b) mod 2 ^ e < s" by (simp add: s_def)
  qed
  note sac = span_after_clear[OF e63 bn spos sn c_at[unfolded ti_def, folded s_def] in_span,
      folded s'_def]
  have s'n: "s' < 2 ^ e" using sac(1) sn by simp
  have s'v: "\<not> isInvalid s'" using s'n nle by (rule small_not_invalid)
  have m_others: "\<And>i. i \<noteq> b \<Longrightarrow> mt' ! i = mt ! i" by (simp add: mt'_def)
  have m_at: "mt' ! b = \<lparr>mkey = ckey (ct ! ti), mval = cval (ct ! ti), chain_length = s'\<rparr>"
    using bn len by (simp add: mt'_def)
  have m_valid: "\<And>i. i < 2 ^ e \<Longrightarrow> mvalid (mt' ! i) \<longleftrightarrow> mvalid (mt ! i)"
    using m_others m_at mv s'v by (metis mvalid_mk)
  have mok': "main_ok h (2 ^ e) mt'"
    unfolding main_ok_def
  proof (intro allI impI)
    fix i :: nat assume "i < 2 ^ e" "mvalid (mt' ! i)"
    then show "h (mkey (mt' ! i)) mod 2 ^ e = i \<and> chain_length (mt' ! i) < 2 ^ e"
      using main_okD[OF mok, of i] m_at m_others[of i] m_valid[of i] tiD(3) s'n
      by (cases "i = b") auto
  qed
  have cok': "coll_ok h (2 ^ e) mt' ct'"
    unfolding coll_ok_def
  proof (intro allI impI)
    fix j :: nat assume j: "j < 2 ^ e" "cvalid (ct' ! j)"
    with c_valid have jt: "j \<noteq> ti" and jv: "cvalid (ct ! j)" by auto
    note jD = coll_okD[OF cok j(1) jv]
    have same: "ct' ! j = ct ! j" using jt by (rule c_others)
    show "main_index (ct' ! j) < 2 ^ e \<and> mvalid (mt' ! main_index (ct' ! j)) \<and>
        h (ckey (ct' ! j)) mod 2 ^ e = main_index (ct' ! j) \<and>
        ckey (ct' ! j) \<noteq> mkey (mt' ! main_index (ct' ! j)) \<and>
        (j + 2 ^ e - main_index (ct' ! j)) mod 2 ^ e < chain_length (mt' ! main_index (ct' ! j))"
    proof (cases "main_index (ct ! j) = b")
      case False
      with jD same m_others[OF False] show ?thesis by simp
    next
      case True
      have "ckey (ct ! j) \<noteq> ckey (ct ! ti)"
        using kok j(1) tin jv ti_valid jt unfolding keys_ok_def by blast
      moreover have "(j + 2 ^ e - b) mod 2 ^ e < s'"
        using sac(3) j(1) same True by simp
      ultimately show ?thesis using jD same True m_at s'v by simp
    qed
  qed
  have tok': "tail_ok (2 ^ e) mt' ct'"
    unfolding tail_ok_def
  proof (intro allI impI)
    fix i :: nat assume i: "i < 2 ^ e" "mvalid (mt' ! i) \<and> 0 < chain_length (mt' ! i)"
    show "main_index (ct' ! ((i + chain_length (mt' ! i) - 1) mod 2 ^ e)) = i"
    proof (cases "i = b")
      case True
      with i m_at have "0 < s'" by simp
      from sac(2)[OF this] True m_at \<open>0 < s'\<close> show ?thesis by simp
    next
      case False
      let ?p = "(i + chain_length (mt ! i) - 1) mod 2 ^ e"
      from False i m_others have old: "mvalid (mt ! i) \<and> 0 < chain_length (mt ! i)" by simp
      with tok i(1) have own: "main_index (ct ! ?p) = i" unfolding tail_ok_def by simp
      with ti_own False have "?p \<noteq> ti" by auto
      with own False m_others c_others show ?thesis by simp
    qed
  qed
  have kok': "keys_ok (2 ^ e) ct'"
    unfolding keys_ok_def
  proof (intro allI impI)
    fix j j' :: nat assume jj: "j < 2 ^ e" "j' < 2 ^ e"
      "cvalid (ct' ! j) \<and> cvalid (ct' ! j') \<and> ckey (ct' ! j) = ckey (ct' ! j')"
    with c_valid c_others have "cvalid (ct ! j)" "cvalid (ct ! j')" "ckey (ct ! j) = ckey (ct ! j')"
      by auto
    with kok jj(1,2) show "j = j'" unfolding keys_ok_def by blast
  qed
  have cpos: "0 < element_count t" using cnt bn mv by (rule count_pos_main)
  have "card {i. i < 2 ^ e \<and> mvalid (mt' ! i)} = card {i. i < 2 ^ e \<and> mvalid (mt ! i)}"
    using m_valid by (intro arg_cong[where f = card]) auto
  moreover have "Suc (card {j. j < 2 ^ e \<and> cvalid (ct' ! j)}) = card {j. j < 2 ^ e \<and> cvalid (ct ! j)}"
    unfolding ct'_def using tin len ti_valid by (intro card_upd_lose) simp_all
  ultimately have cnt': "count_ok (element_count t') (2 ^ e) mt' ct'"
    using cnt cpos unfolding count_ok_def t'_eq by (simp add: size_dec_pos)
  have "shape_ok (2 ^ e) mt' ct'" using e63 len unfolding shape_ok_def mt'_def ct'_def by auto
  with mok' cok' tok' kok' cnt' show "table_inv cfg t'"
    unfolding table_inv_def by (simp add: t'_eq n h_def)
  show "Suc (element_count t') = element_count t" using cpos by (simp add: t'_eq size_dec_pos)
  show "bucket_count t' = bucket_count t" by (simp add: t'_eq)
  have t't: "main_table t' = Some mt'" "collision_table t' = Some ct'" by (simp_all add: t'_eq)
  have len': "length mt' = 2 ^ e" "length ct' = 2 ^ e" using len by (simp_all add: mt'_def ct'_def)
  have key_b: "h (mkey (mt ! b)) mod 2 ^ e = b" using main_okD(1)[OF mok bn mv] .
  show "entries t' = {p \<in> entries t. fst p \<noteq> mkey (mt ! b)}"
  proof (intro set_eqI iffI)
    fix p assume p: "p \<in> entries t'"
    obtain k v where kv: "p = (k, v)" by (cases p)
    from p consider i where "i < 2 ^ e" "mvalid (mt' ! i)" "mkey (mt' ! i) = k" "mval (mt' ! i) = v"
      | j where "j < 2 ^ e" "cvalid (ct' ! j)" "ckey (ct' ! j) = k" "cval (ct' ! j) = v"
      unfolding kv entries_iff[OF t't] using len' by auto
    then have "(k, v) \<in> entries t \<and> k \<noteq> mkey (mt ! b)"
    proof cases
      case 1
      show ?thesis
      proof (cases "i = b")
        case True
        with 1 m_at have "k = ckey (ct ! ti)" "v = cval (ct ! ti)" by simp_all
        with tin ti_valid len tiD(4) show ?thesis unfolding entries_iff[OF t] by auto
      next
        case False
        with 1 m_others have old: "mvalid (mt ! i)" "mkey (mt ! i) = k" "mval (mt ! i) = v" by simp_all
        moreover have "k \<noteq> mkey (mt ! b)"
          using main_okD(1)[OF mok 1(1) old(1)] key_b False old(2) by auto
        ultimately show ?thesis using 1(1) len unfolding entries_iff[OF t] by auto
      qed
    next
      case 2
      with c_valid c_others have old: "j \<noteq> ti" "cvalid (ct ! j)" "ckey (ct ! j) = k" "cval (ct ! j) = v"
        by auto
      have "k \<noteq> mkey (mt ! b)"
        using coll_okD(3,4)[OF cok 2(1) old(2)] key_b old(3) by auto
      with old 2(1) len show ?thesis unfolding entries_iff[OF t] by auto
    qed
    then show "p \<in> {p \<in> entries t. fst p \<noteq> mkey (mt ! b)}" by (simp add: kv)
  next
    fix p assume p: "p \<in> {p \<in> entries t. fst p \<noteq> mkey (mt ! b)}"
    obtain k v where kv: "p = (k, v)" by (cases p)
    from p have ne: "k \<noteq> mkey (mt ! b)" by (simp add: kv)
    from p consider i where "i < 2 ^ e" "mvalid (mt ! i)" "mkey (mt ! i) = k" "mval (mt ! i) = v"
      | j where "j < 2 ^ e" "cvalid (ct ! j)" "ckey (ct ! j) = k" "cval (ct ! j) = v"
      unfolding kv using entries_iff[OF t, of k v] len by auto
    then show "p \<in> entries t'"
    proof cases
      case 1
      with ne have "i \<noteq> b" by auto
      with 1 m_others have "mvalid (mt' ! i)" "mkey (mt' ! i) = k" "mval (mt' ! i) = v" by simp_all
      with 1(1) len' show ?thesis unfolding kv entries_iff[OF t't] by auto
    next
      case 2
      show ?thesis
      proof (cases "j = ti")
        case True
        with 2 m_at s'v have "mvalid (mt' ! b)" "mkey (mt' ! b) = k" "mval (mt' ! b) = v" by simp_all
        with bn len' show ?thesis unfolding kv entries_iff[OF t't] by auto
      next
        case False
        with 2 c_others c_valid have "cvalid (ct' ! j)" "ckey (ct' ! j) = k" "cval (ct' ! j) = v"
          by simp_all
        with 2(1) len' show ?thesis unfolding kv entries_iff[OF t't] by auto
      qed
    qed
  qed
qed

lemma remove_collision_inv:
  assumes inv: "table_inv cfg t" and t: "main_table t = Some mt" "collision_table t = Some ct"
    and n: "bucket_count t = 2 ^ e"
    and j: "j < bucket_count t" "cvalid (ct ! j)" and b: "b = main_index (ct ! j)"
  defines "ti \<equiv> (b + (chain_length (mt ! b) - 1)) mod 2 ^ e"
  defines "ct1 \<equiv> (if ti = j then ct else ct[j := (ct ! j)\<lparr>ckey := ckey (ct ! ti), cval := cval (ct ! ti)\<rparr>])"
  defines "ct2 \<equiv> ct1[ti := (ct1 ! ti)\<lparr>main_index := invalid_marker\<rparr>]"
  defines "t' \<equiv> t\<lparr>element_count := size_dec (element_count t),
          main_table := Some (mt[b := (mt ! b)\<lparr>chain_length :=
             walk_back ct2 (size_dec (2 ^ e)) b (chain_length (mt ! b) - 1)\<rparr>]),
          collision_table := Some ct2\<rparr>"
  shows "table_inv cfg t'"
    and "entries t' = {p \<in> entries t. fst p \<noteq> ckey (ct ! j)}"
    and "Suc (element_count t') = element_count t"
    and "bucket_count t' = bucket_count t"
proof -
  from inv t n obtain e63: "e \<le> 63" and len0: "length mt = bucket_count t" "length ct = bucket_count t"
    and mok: "main_ok (hash_function cfg) (bucket_count t) mt"
    and cok: "coll_ok (hash_function cfg) (bucket_count t) mt ct"
    and tok: "tail_ok (bucket_count t) mt ct"
    and kok: "keys_ok (bucket_count t) ct"
    and cnt: "count_ok (element_count t) (bucket_count t) mt ct"
    by (auto elim!: table_invE)
  define h where "h = hash_function cfg"
  define s where "s = chain_length (mt ! b)"
  define s' where "s' = walk_back ct2 (size_dec (2 ^ e)) b (s - 1)"
  define mt' where "mt' = mt[b := (mt ! b)\<lparr>chain_length := s'\<rparr>]"
  note mok = mok[unfolded n, folded h_def] and cok = cok[unfolded n, folded h_def]
    and tok = tok[unfolded n] and kok = kok[unfolded n] and cnt = cnt[unfolded n]
  have jn: "j < 2 ^ e" using j n by simp
  note jD = coll_okD[OF cok jn j(2), folded b]
  have bn: "b < 2 ^ e" and mv: "mvalid (mt ! b)" using jD by simp_all
  have len: "length mt = 2 ^ e" "length ct = 2 ^ e" using len0 n by simp_all
  have nle: "(2::nat) ^ e \<le> 2 ^ 63" using e63 by (rule pow2_le_63)
  have spos: "0 < s" using jD(5) by (simp add: s_def)
  have sn: "s < 2 ^ e" using main_okD(2)[OF mok bn mv] by (simp add: s_def)
  have tin: "ti < 2 ^ e" by (simp add: ti_def)
  have ti_own: "main_index (ct ! ti) = b"
    using tok bn mv spos unfolding tail_ok_def ti_def s_def by simp
  have bv: "\<not> isInvalid b" using bn nle by (rule small_not_invalid)
  have ti_valid: "cvalid (ct ! ti)" using ti_own bv by (simp add: cvalid_def)
  note tiD = coll_okD[OF cok tin ti_valid, unfolded ti_own]
  have t'_eq: "t' = t\<lparr>element_count := size_dec (element_count t), main_table := Some mt',
      collision_table := Some ct2\<rparr>"
    by (simp add: t'_def mt'_def s'_def s_def)
  have len1: "length ct1 = 2 ^ e" using len by (simp add: ct1_def)
  have own1: "\<And>x. main_index (ct1 ! x) = main_index (ct ! x)"
    using jn len by (simp add: ct1_def nth_list_update)
  have c_own: "\<And>x. x \<noteq> ti \<Longrightarrow> main_index (ct2 ! x) = main_index (ct ! x)"
    using own1 by (simp add: ct2_def)
  have c_at: "main_index (ct2 ! ti) = invalid_marker" using tin len1 by (simp add: ct2_def)
  have c_valid: "\<And>x. x < 2 ^ e \<Longrightarrow> cvalid (ct2 ! x) \<longleftrightarrow> x \<noteq> ti \<and> cvalid (ct ! x)"
    using c_own c_at by (metis cvalid_def isInvalid_marker)
  have c_kv_other: "\<And>x. x \<noteq> ti \<Longrightarrow> x \<noteq> j \<Longrightarrow> ct2 ! x = ct ! x"
    by (simp add: ct2_def ct1_def)
  have c_kv_j: "j \<noteq> ti \<Longrightarrow> ckey (ct2 ! j) = ckey (ct ! ti) \<and> cval (ct2 ! j) = cval (ct ! ti)"
    using jn len by (simp add: ct2_def ct1_def)
  have in_span: "\<forall>x < 2 ^ e. main_index (ct2 ! x) = b \<longrightarrow> (x + 2 ^ e - b) mod 2 ^ e < s"
  proof (intro allI impI)
    fix x :: nat assume x: "x < 2 ^ e" "main_index (ct2 ! x) = b"
    with bv have "cvalid (ct2 ! x)" by (simp add: cvalid_def)
    with c_valid[OF x(1)] c_own x(2) have "cvalid (ct ! x)" "main_index (ct ! x) = b" by auto
    with coll_okD(5)[OF cok x(1)] show "(x + 2 ^ e - b) mod 2 ^ e < s" by (simp add: s_def)
  qed
  note sac = span_after_clear[OF e63 bn spos sn c_at[unfolded ti_def, folded s_def] in_span,
      folded s'_def]
  have s'n: "s' < 2 ^ e" using sac(1) sn by simp
  have s'v: "\<not> isInvalid s'" using s'n nle by (rule small_not_invalid)
  have m_others: "\<And>i. i \<noteq> b \<Longrightarrow> mt' ! i = mt ! i" by (simp add: mt'_def)
  have m_at: "mt' ! b = (mt ! b)\<lparr>chain_length := s'\<rparr>" using bn len by (simp add: mt'_def)
  have m_valid: "\<And>i. i < 2 ^ e \<Longrightarrow> mvalid (mt' ! i) \<longleftrightarrow> mvalid (mt ! i)"
    using m_others m_at mv s'v by (metis mvalid_upd)
  have m_kv: "\<And>i. mkey (mt' ! i) = mkey (mt ! i) \<and> mval (mt' ! i) = mval (mt ! i)"
    using m_others m_at by (metis MainEntry.simps(5) MainEntry.select_convs(1,2) MainEntry.surjective MainEntry.update_convs(3))
  have key_ne: "\<And>x. x < 2 ^ e \<Longrightarrow> x \<noteq> j \<Longrightarrow> cvalid (ct ! x) \<Longrightarrow> ckey (ct ! x) \<noteq> ckey (ct ! j)"
    using kok jn j(2) unfolding keys_ok_def by blast
  have key_ne_t: "\<And>x. x < 2 ^ e \<Longrightarrow> x \<noteq> ti \<Longrightarrow> cvalid (ct ! x) \<Longrightarrow> ckey (ct ! x) \<noteq> ckey (ct ! ti)"
    using kok tin ti_valid unfolding keys_ok_def by blast
  have mok': "main_ok h (2 ^ e) mt'"
    unfolding main_ok_def
  proof (intro allI impI)
    fix i :: nat assume "i < 2 ^ e" "mvalid (mt' ! i)"
    then show "h (mkey (mt' ! i)) mod 2 ^ e = i \<and> chain_length (mt' ! i) < 2 ^ e"
      using main_okD[OF mok, of i] m_at m_others[of i] m_valid[of i] s'n
      by (cases "i = b") auto
  qed
  have cok': "coll_ok h (2 ^ e) mt' ct2"
    unfolding coll_ok_def
  proof (intro allI impI)
    fix x :: nat assume x: "x < 2 ^ e" "cvalid (ct2 ! x)"
    with c_valid have xt: "x \<noteq> ti" and xv: "cvalid (ct ! x)" by auto
    note xD = coll_okD[OF cok x(1) xv]
    have own: "main_index (ct2 ! x) = main_index (ct ! x)" using xt by (rule c_own)
    have key: "h (ckey (ct2 ! x)) mod 2 ^ e = main_index (ct ! x) \<and>
        ckey (ct2 ! x) \<noteq> mkey (mt ! main_index (ct ! x))"
    proof (cases "x = j")
      case True
      with xt c_kv_j tiD b xD show ?thesis by simp
    next
      case False
      with xt c_kv_other xD show ?thesis by simp
    qed
    show "main_index (ct2 ! x) < 2 ^ e \<and> mvalid (mt' ! main_index (ct2 ! x)) \<and>
        h (ckey (ct2 ! x)) mod 2 ^ e = main_index (ct2 ! x) \<and>
        ckey (ct2 ! x) \<noteq> mkey (mt' ! main_index (ct2 ! x)) \<and>
        (x + 2 ^ e - main_index (ct2 ! x)) mod 2 ^ e < chain_length (mt' ! main_index (ct2 ! x))"
    proof (cases "main_index (ct ! x) = b")
      case False
      with xD own key m_others[OF False] show ?thesis by simp
    next
      case True
      have "(x + 2 ^ e - b) mod 2 ^ e < s'"
        using sac(3) x(1) own True by simp
      then show ?thesis using xD own key True m_at m_kv[of b] s'v by simp
    qed
  qed
  have tok': "tail_ok (2 ^ e) mt' ct2"
    unfolding tail_ok_def
  proof (intro allI impI)
    fix i :: nat assume i: "i < 2 ^ e" "mvalid (mt' ! i) \<and> 0 < chain_length (mt' ! i)"
    show "main_index (ct2 ! ((i + chain_length (mt' ! i) - 1) mod 2 ^ e)) = i"
    proof (cases "i = b")
      case True
      with i m_at have "0 < s'" by simp
      from sac(2)[OF this] True m_at \<open>0 < s'\<close> show ?thesis by simp
    next
      case False
      let ?p = "(i + chain_length (mt ! i) - 1) mod 2 ^ e"
      from False i m_others have old: "mvalid (mt ! i) \<and> 0 < chain_length (mt ! i)" by simp
      with tok i(1) have own: "main_index (ct ! ?p) = i" unfolding tail_ok_def by simp
      with ti_own False have "?p \<noteq> ti" by auto
      with own False m_others c_own show ?thesis by simp
    qed
  qed
  have kok': "keys_ok (2 ^ e) ct2"
    unfolding keys_ok_def
  proof (intro allI impI)
    fix x y :: nat assume xy: "x < 2 ^ e" "y < 2 ^ e"
      "cvalid (ct2 ! x) \<and> cvalid (ct2 ! y) \<and> ckey (ct2 ! x) = ckey (ct2 ! y)"
    with c_valid have v: "x \<noteq> ti" "cvalid (ct ! x)" "y \<noteq> ti" "cvalid (ct ! y)" by auto
    show "x = y"
    proof (cases "x = j"; cases "y = j")
      assume "x \<noteq> j" "y \<noteq> j"
      with v c_kv_other xy(3) have "ckey (ct ! x) = ckey (ct ! y)" by simp
      with kok xy(1,2) v show ?thesis unfolding keys_ok_def by blast
    next
      assume a: "x = j" "y \<noteq> j"
      with v c_kv_j c_kv_other xy(3) have "ckey (ct ! ti) = ckey (ct ! y)" by simp
      with key_ne_t[OF xy(2) v(3,4)] show ?thesis by simp
    next
      assume a: "x \<noteq> j" "y = j"
      with v c_kv_j c_kv_other xy(3) have "ckey (ct ! x) = ckey (ct ! ti)" by simp
      with key_ne_t[OF xy(1) v(1,2)] show ?thesis by simp
    qed simp
  qed
  have cpos: "0 < element_count t" using cnt bn mv by (rule count_pos_main)
  have "card {i. i < 2 ^ e \<and> mvalid (mt' ! i)} = card {i. i < 2 ^ e \<and> mvalid (mt ! i)}"
    using m_valid by (intro arg_cong[where f = card]) auto
  moreover have "{x. x < 2 ^ e \<and> cvalid (ct ! x)} = insert ti {x. x < 2 ^ e \<and> cvalid (ct2 ! x)}"
    using c_valid tin ti_valid by auto
  then have "card {x. x < 2 ^ e \<and> cvalid (ct ! x)} = Suc (card {x. x < 2 ^ e \<and> cvalid (ct2 ! x)})"
    using c_valid by (simp add: card_insert_if)
  ultimately have cnt': "count_ok (element_count t') (2 ^ e) mt' ct2"
    using cnt cpos unfolding count_ok_def t'_eq by (simp add: size_dec_pos)
  have len2: "length ct2 = 2 ^ e" using len1 by (simp add: ct2_def)
  have "shape_ok (2 ^ e) mt' ct2" using e63 len len2 unfolding shape_ok_def mt'_def by auto
  with mok' cok' tok' kok' cnt' show "table_inv cfg t'"
    unfolding table_inv_def by (simp add: t'_eq n h_def)
  show "Suc (element_count t') = element_count t" using cpos by (simp add: t'_eq size_dec_pos)
  show "bucket_count t' = bucket_count t" by (simp add: t'_eq)
  have t't: "main_table t' = Some mt'" "collision_table t' = Some ct2" by (simp_all add: t'_eq)
  have len': "length mt' = 2 ^ e" using len by (simp add: mt'_def)
  have key_b: "h (mkey (mt ! b)) mod 2 ^ e = b" using main_okD(1)[OF mok bn mv] .
  show "entries t' = {p \<in> entries t. fst p \<noteq> ckey (ct ! j)}"
  proof (intro set_eqI iffI)
    fix p assume p: "p \<in> entries t'"
    obtain k v where kv: "p = (k, v)" by (cases p)
    from p consider i where "i < 2 ^ e" "mvalid (mt' ! i)" "mkey (mt' ! i) = k" "mval (mt' ! i) = v"
      | x where "x < 2 ^ e" "cvalid (ct2 ! x)" "ckey (ct2 ! x) = k" "cval (ct2 ! x) = v"
      unfolding kv entries_iff[OF t't] using len' len2 by auto
    then have "(k, v) \<in> entries t \<and> k \<noteq> ckey (ct ! j)"
    proof cases
      case 1
      with m_valid m_kv have old: "mvalid (mt ! i)" "mkey (mt ! i) = k" "mval (mt ! i) = v" by simp_all
      have "k \<noteq> ckey (ct ! j)"
        using main_okD(1)[OF mok 1(1) old(1)] jD(3,4) old(2) by auto
      with old 1(1) len show ?thesis unfolding entries_iff[OF t] by auto
    next
      case 2
      with c_valid have xt: "x \<noteq> ti" and xv: "cvalid (ct ! x)" by auto
      show ?thesis
      proof (cases "x = j")
        case True
        with xt 2 c_kv_j have "k = ckey (ct ! ti)" "v = cval (ct ! ti)" by simp_all
        moreover have "ckey (ct ! ti) \<noteq> ckey (ct ! j)"
          using key_ne[OF tin _ ti_valid] xt True by simp
        ultimately show ?thesis using tin ti_valid len unfolding entries_iff[OF t] by auto
      next
        case False
        with xt 2 c_kv_other have "ckey (ct ! x) = k" "cval (ct ! x) = v" by simp_all
        with key_ne[OF 2(1) False xv] xv 2(1) len show ?thesis unfolding entries_iff[OF t] by auto
      qed
    qed
    then show "p \<in> {p \<in> entries t. fst p \<noteq> ckey (ct ! j)}" by (simp add: kv)
  next
    fix p assume p: "p \<in> {p \<in> entries t. fst p \<noteq> ckey (ct ! j)}"
    obtain k v where kv: "p = (k, v)" by (cases p)
    from p have ne: "k \<noteq> ckey (ct ! j)" by (simp add: kv)
    from p consider i where "i < 2 ^ e" "mvalid (mt ! i)" "mkey (mt ! i) = k" "mval (mt ! i) = v"
      | x where "x < 2 ^ e" "cvalid (ct ! x)" "ckey (ct ! x) = k" "cval (ct ! x) = v"
      unfolding kv using entries_iff[OF t, of k v] len by auto
    then show "p \<in> entries t'"
    proof cases
      case 1
      with m_valid m_kv have "mvalid (mt' ! i)" "mkey (mt' ! i) = k" "mval (mt' ! i) = v" by simp_all
      with 1(1) len' show ?thesis unfolding kv entries_iff[OF t't] by auto
    next
      case 2
      with ne have xj: "x \<noteq> j" by auto
      show ?thesis
      proof (cases "x = ti")
        case True
        with xj have jt: "j \<noteq> ti" by simp
        with c_valid[OF jn] j(2) c_kv_j 2 True
        have "cvalid (ct2 ! j)" "ckey (ct2 ! j) = k" "cval (ct2 ! j) = v" by simp_all
        with jn len2 show ?thesis unfolding kv entries_iff[OF t't] by auto
      next
        case False
        with 2 xj c_kv_other c_valid have "cvalid (ct2 ! x)" "ckey (ct2 ! x) = k" "cval (ct2 ! x) = v"
          by simp_all
        with 2(1) len2 show ?thesis unfolding kv entries_iff[OF t't] by auto
      qed
    qed
  qed
qed

lemma remove_key_absent:
  assumes "table_ok cfg t" "k \<notin> fst ` entries t"
  shows "remove_key cfg t k = t"
  using assms(1)
proof (cases rule: table_ok_cases)
  case unalloc
  then show ?thesis by (simp add: remove_key_def find_hm_def iter_eq_def end_hm_def)
next
  case alloc
  from find_hm_absent[OF alloc(1) assms(2)] show ?thesis
    by (simp add: remove_key_def iter_eq_def end_hm_def)
qed

lemma remove_key_present:
  assumes inv: "table_inv cfg t" and kv: "(k, v) \<in> entries t"
  shows "table_inv cfg (remove_key cfg t k)"
    and "entries (remove_key cfg t k) = {p \<in> entries t. fst p \<noteq> k}"
    and "Suc (element_count (remove_key cfg t k)) = element_count t"
    and "bucket_count (remove_key cfg t k) = bucket_count t"
proof -
  from inv obtain mt ct e where t: "main_table t = Some mt" "collision_table t = Some ct"
    and n: "bucket_count t = 2 ^ e" "e \<le> 63" "length mt = bucket_count t" "length ct = bucket_count t"
    and mok: "main_ok (hash_function cfg) (bucket_count t) mt"
    and cok: "coll_ok (hash_function cfg) (bucket_count t) mt ct"
    by (elim table_invE)
  define b where "b = hash_function cfg k mod bucket_count t"
  have bn: "b < bucket_count t" using n by (simp add: b_def)
  have nle: "bucket_count t \<le> 2 ^ 63" using inv by (rule table_inv_le)
  have bv: "\<not> isInvalid b" using bn nle by (rule small_not_invalid)
  from kv t n consider
    (main) i where "i < bucket_count t" "mvalid (mt ! i)" "mkey (mt ! i) = k"
  | (coll) j where "j < bucket_count t" "cvalid (ct ! j)" "ckey (ct ! j) = k"
    by (auto simp: entries_iff)
  then have "table_inv cfg (remove_key cfg t k) \<and>
      entries (remove_key cfg t k) = {p \<in> entries t. fst p \<noteq> k} \<and>
      Suc (element_count (remove_key cfg t k)) = element_count t \<and>
      bucket_count (remove_key cfg t k) = bucket_count t"
  proof cases
    case main
    with main_okD(1)[OF mok main(1,2)] have ib: "i = b" by (simp add: b_def)
    with main t have mv: "mvalid (mainT t ! b)" "mkey (mainT t ! b) = k" by simp_all
    have f: "find_hm cfg t k =
        \<lparr>bucket_index = b, collision_index = invalid_marker, value_ptr = Some (MainValue b)\<rparr>"
      using find_hm_main_hit[OF inv b_def mv] .
    then have rk: "remove_key cfg t k = fst (remove_iter t
        \<lparr>bucket_index = b, collision_index = invalid_marker, value_ptr = Some (MainValue b)\<rparr>)"
      by (simp add: remove_key_def iter_eq_def end_hm_def)
    show ?thesis
    proof (cases "chain_length (mt ! b) = 0")
      case True
      have mvb: "mvalid (mt ! b)" using mv t by simp
      have key: "mkey (mt ! b) = k" using mv t by simp
      show ?thesis
        unfolding rk remove_iter_main_single[OF t(1) True]
        using remove_main_single_inv(1-4)[OF inv t(1) bn mvb True] key by simp
    next
      case False
      have mvb: "mvalid (mt ! b)" using mv t by simp
      have key: "mkey (mt ! b) = k" using mv t by simp
      show ?thesis
        unfolding rk remove_iter_main_chain[OF t False n(1)] Let_def
        using remove_main_chain_inv[OF inv t n(1) bn mvb False] unfolding key by blast
    qed
  next
    case coll
    note jD = coll_okD[OF cok coll(1,2)]
    from jD(3) coll(3) have own: "main_index (ct ! j) = b" by (simp add: b_def)
    with jD coll t have mv: "mvalid (mainT t ! b)" "mkey (mainT t ! b) \<noteq> k"
      and cj: "j < bucket_count t" "cvalid (collT t ! j)" "ckey (collT t ! j) = k" by auto
    have f: "find_hm cfg t k =
        \<lparr>bucket_index = b, collision_index = j, value_ptr = Some (CollisionValue j)\<rparr>"
      using find_hm_chain_hit[OF inv b_def mv cj] .
    then have rk: "remove_key cfg t k = fst (remove_iter t
        \<lparr>bucket_index = b, collision_index = j, value_ptr = Some (CollisionValue j)\<rparr>)"
      by (simp add: remove_key_def iter_eq_def end_hm_def)
    have jv: "\<not> isInvalid j" using coll(1) nle by (rule small_not_invalid)
    have s0: "chain_length (mt ! b) \<noteq> 0" using jD(5) own by auto
    show ?thesis
      unfolding rk remove_iter_collision[OF t s0 n(1) jv bv] Let_def
      using remove_collision_inv[OF inv t n(1) coll(1,2) own[symmetric]] unfolding coll(3) by blast
  qed
  then show "table_inv cfg (remove_key cfg t k)"
    and "entries (remove_key cfg t k) = {p \<in> entries t. fst p \<noteq> k}"
    and "Suc (element_count (remove_key cfg t k)) = element_count t"
    and "bucket_count (remove_key cfg t k) = bucket_count t"
    by simp_all
qed

lemma remove_key_ok:
  assumes ok: "table_ok cfg t"
  shows "table_ok cfg (remove_key cfg t k)"
    and "entries (remove_key cfg t k) = {p \<in> entries t. fst p \<noteq> k}"
    and "bucket_count (remove_key cfg t k) = bucket_count t"
    and "main_table t \<noteq> None \<Longrightarrow> main_table (remove_key cfg t k) \<noteq> None"
proof -
  have "table_ok cfg (remove_key cfg t k) \<and>
      entries (remove_key cfg t k) = {p \<in> entries t. fst p \<noteq> k} \<and>
      bucket_count (remove_key cfg t k) = bucket_count t \<and>
      (main_table t \<noteq> None \<longrightarrow> main_table (remove_key cfg t k) \<noteq> None)"
  proof (cases "k \<in> fst ` entries t")
    case False
    from remove_key_absent[OF ok False] ok False show ?thesis by force
  next
    case True
    then obtain v where kv: "(k, v) \<in> entries t" by auto
    then have "table_inv cfg t" using ok
      by (auto simp: table_ok_def unallocated_def entries_def)
    from remove_key_present[OF this kv] show ?thesis
      by (auto simp: table_ok_def table_inv_def)
  qed
  then show "table_ok cfg (remove_key cfg t k)"
    and "entries (remove_key cfg t k) = {p \<in> entries t. fst p \<noteq> k}"
    and "bucket_count (remove_key cfg t k) = bucket_count t"
    and "main_table t \<noteq> None \<Longrightarrow> main_table (remove_key cfg t k) \<noteq> None"
    by simp_all
qed

text \<open>Rules that let the simplifier run the model on concrete tables.\<close>

lemma replicate_numeral_eval: "replicate (numeral k) x = x # replicate (pred_numeral k) x"
  by (simp add: numeral_eq_Suc)

lemma list_update_numeral_eval: "(x # xs)[numeral k := y] = x # xs[pred_numeral k := y]"
  by (simp add: numeral_eq_Suc)

lemma probe_numeral_eval:
  "probe ct msk index cl (numeral k) =
     (if \<not> isInvalid (main_index (ct ! index))
      then probe ct msk ((index + 1) AND msk) (cl + 1) (pred_numeral k)
      else Some (index, cl))"
  by (simp add: numeral_eq_Suc)

lemma chain_scan_numeral_eval:
  "chain_scan ct n b key cur cidx (numeral k) =
     (if main_index (ct ! cur) = b \<and> ckey (ct ! cur) = key then Some (cur, cidx)
      else chain_scan ct n b key (if cur + 1 = n then 0 else cur + 1) (cidx + 1) (pred_numeral k))"
  by (simp add: numeral_eq_Suc)

lemma walk_back_numeral_eval:
  "walk_back ct msk b (numeral k) =
     (if main_index (ct ! ((b + pred_numeral k) AND msk)) \<noteq> b
      then walk_back ct msk b (pred_numeral k) else numeral k)"
  by (simp add: numeral_eq_Suc)

lemma first_valid_main_numeral_eval:
  "first_valid_main mt i (numeral k) =
     (if \<not> isInvalid (chain_length (mt ! i)) then Some i
      else first_valid_main mt (i + 1) (pred_numeral k))"
  by (simp add: numeral_eq_Suc)

lemma first_valid_collision_numeral_eval:
  "first_valid_collision ct i (numeral k) =
     (if \<not> isInvalid (main_index (ct ! i)) then Some i
      else first_valid_collision ct (i + 1) (pred_numeral k))"
  by (simp add: numeral_eq_Suc)

lemmas hm_eval = probe_numeral_eval chain_scan_numeral_eval walk_back_numeral_eval
  first_valid_main_numeral_eval first_valid_collision_numeral_eval begin_hm_def
  cfg_nat_def empty_map_def fresh_table_def size_max_def size_dec_def find_hm_def
  find_in_collision_chain_def mask_of_def isInvalid_def invalid_marker_def store_main_def
  store_collision_def end_hm_def main_entries_def collision_entries_def Let_def
  replicate_numeral_eval list_update_numeral_eval try_insert.simps try_insert_at.simps reserve.simps
  bucket_limit_loop.simps remove_key_def remove_iter_def iter_eq_def apply_operation_def
  increment_def incr_main.simps incr_collision.simps mvalid_def cvalid_def lookup_def slot_entry_def deref_def
  size_hm_def

text \<open>Every public operation keeps a table well formed.\<close>

lemma empty_map_ok: "table_ok cfg empty_map"
  by (simp add: table_ok_def unallocated_def empty_map_def)

lemma try_insert_ok:
  assumes "table_ok cfg t" "try_insert cfg f t k v = Some (Inr r)"
  shows "table_inv cfg (fst r)"
    and "fst ` entries (fst r) = insert k (fst ` entries t)"
    and "bucket_count t \<le> bucket_count (fst r)"
proof -
  have spec: "try_insert_spec cfg f" using all_specs[of cfg f] by simp
  show "table_inv cfg (fst r)"
  proof (cases "k \<in> fst ` entries t")
    case True
    with spec assms have "r = (t, find_hm cfg t k, False)"
      unfolding try_insert_spec_def by metis
    moreover from True assms(1) have "table_inv cfg t"
      by (auto simp: table_ok_def unallocated_def entries_def)
    ultimately show ?thesis by simp
  next
    case False
    with spec assms have "insert_post cfg t k v (fst r)"
      unfolding try_insert_spec_def by metis
    then show ?thesis by (simp add: insert_post_def)
  qed
  show "fst ` entries (fst r) = insert k (fst ` entries t)"
  proof (cases "k \<in> fst ` entries t")
    case True
    with spec assms have "r = (t, find_hm cfg t k, False)"
      unfolding try_insert_spec_def by metis
    with True show ?thesis by auto
  next
    case False
    with spec assms have "insert_post cfg t k v (fst r)"
      unfolding try_insert_spec_def by metis
    then show ?thesis by (simp add: insert_post_def)
  qed
  show "bucket_count t \<le> bucket_count (fst r)"
  proof (cases "k \<in> fst ` entries t")
    case True
    with spec assms have "r = (t, find_hm cfg t k, False)"
      unfolding try_insert_spec_def by metis
    then show ?thesis by simp
  next
    case False
    with spec assms have "insert_post cfg t k v (fst r)"
      unfolding try_insert_spec_def by metis
    then show ?thesis by (simp add: insert_post_def)
  qed
qed

lemma apply_operation_ok:
  assumes "table_ok cfg t" "apply_operation cfg f t x = Some (Inr t')"
  shows "table_ok cfg t'"
proof (cases x)
  case (Insert k v)
  with assms(2) obtain r where "try_insert cfg f t k v = Some (Inr r)" "t' = fst r"
    by (auto simp: apply_operation_def split: option.splits sum.splits)
  with try_insert_ok(1)[OF assms(1)] show ?thesis by (simp add: table_ok_def)
next
  case (Erase k)
  with assms(2) have "t' = remove_key cfg t k" by (simp add: apply_operation_def)
  with remove_key_ok(1)[OF assms(1)] show ?thesis by simp
qed

lemma run_operations_ok:
  "table_ok cfg t \<Longrightarrow> run_operations cfg f t ops = Some (Inr t') \<Longrightarrow> table_ok cfg t'"
proof (induction ops arbitrary: t)
  case Nil
  then show ?case by simp
next
  case (Cons x ops)
  from Cons.prems(2) obtain t1 where s: "apply_operation cfg f t x = Some (Inr t1)"
    and r: "run_operations cfg f t1 ops = Some (Inr t')"
    by (auto split: option.splits sum.splits)
  from apply_operation_ok[OF Cons.prems(1) s] r show ?case by (rule Cons.IH)
qed

lemma owned_slots_in_span:
  assumes inv: "table_inv cfg t" and b: "b < bucket_count t" and mv: "mvalid (mainT t ! b)"
  shows "{(b + d) mod bucket_count t | d. d < chain_length (mainT t ! b) \<and>
            main_index (collT t ! ((b + d) mod bucket_count t)) = b} =
         {j. j < bucket_count t \<and> cvalid (collT t ! j) \<and> main_index (collT t ! j) = b}"
proof -
  from inv obtain mt ct where t: "main_table t = Some mt" "collision_table t = Some ct"
    and cok: "coll_ok (hash_function cfg) (bucket_count t) mt ct"
    by (elim table_invE)
  have npos: "0 < bucket_count t" using inv by (rule table_inv_pos)
  have nle: "bucket_count t \<le> 2 ^ 63" using inv by (rule table_inv_le)
  have bv: "\<not> isInvalid b" using b nle by (rule small_not_invalid)
  show ?thesis
  proof (intro set_eqI iffI)
    fix j assume "j \<in> {(b + d) mod bucket_count t | d. d < chain_length (mainT t ! b) \<and>
            main_index (collT t ! ((b + d) mod bucket_count t)) = b}"
    then obtain d where "j = (b + d) mod bucket_count t" "main_index (collT t ! j) = b" by auto
    with npos bv show "j \<in> {j. j < bucket_count t \<and> cvalid (collT t ! j) \<and> main_index (collT t ! j) = b}"
      by (simp add: cvalid_def)
  next
    fix j assume "j \<in> {j. j < bucket_count t \<and> cvalid (collT t ! j) \<and> main_index (collT t ! j) = b}"
    then have j: "j < bucket_count t" "cvalid (ct ! j)" "main_index (ct ! j) = b" using t by simp_all
    from coll_okD(5)[OF cok j(1,2)] j(3) t
    have "(j + bucket_count t - b) mod bucket_count t < chain_length (mainT t ! b)" by simp
    moreover have "(b + (j + bucket_count t - b) mod bucket_count t) mod bucket_count t = j"
      using b j(1) by (rule pos_of_off)
    ultimately show "j \<in> {(b + d) mod bucket_count t | d. d < chain_length (mainT t ! b) \<and>
            main_index (collT t ! ((b + d) mod bucket_count t)) = b}"
      using j(3) t by (intro CollectI exI[of _ "(j + bucket_count t - b) mod bucket_count t"]) simp
  qed
qed

text \<open>
  C2.  After any sequence of insertions and removals on an initially empty map that returns
  normally, the bucket count is 0 or a power of two, and for every occupied bucket \<open>b\<close> the
  collision slots met in the first \<open>chain_length\<close> probe steps from \<open>b\<close> whose owner field
  is \<open>b\<close> are exactly the occupied collision slots owned by \<open>b\<close>.
\<close>

theorem invariant_preservation:
  assumes "run_operations cfg f empty_map ops = Some (Inr t)"
  shows "(bucket_count t = 0 \<or> (\<exists>e. bucket_count t = 2 ^ e)) \<and>
    (\<forall>b < bucket_count t. mvalid (mainT t ! b) \<longrightarrow>
       {(b + d) mod bucket_count t | d. d < chain_length (mainT t ! b) \<and>
            main_index (collT t ! ((b + d) mod bucket_count t)) = b} =
       {j. j < bucket_count t \<and> cvalid (collT t ! j) \<and> main_index (collT t ! j) = b})"
proof -
  from run_operations_ok[OF empty_map_ok assms] have ok: "table_ok cfg t" .
  show ?thesis
  proof (cases "unallocated t")
    case True
    then show ?thesis by (simp add: unallocated_def)
  next
    case False
    with ok have inv: "table_inv cfg t" by (simp add: table_ok_def)
    then obtain e where "bucket_count t = 2 ^ e" by (elim table_invE)
    with owned_slots_in_span[OF inv] show ?thesis by blast
  qed
qed

theorem invariant_preservation_witness:
  "\<exists>t. run_operations cfg_nat (Suc (Suc 0)) empty_map
          [Insert 0 100, Insert 16 116, Insert 32 132, Insert 3 103, Insert 19 119, Erase 32]
        = Some (Inr t) \<and>
      bucket_count t = 2 ^ 4 \<and> mvalid (mainT t ! 3) \<and> chain_length (mainT t ! 3) = 1 \<and>
      {(3 + d) mod bucket_count t | d. d < chain_length (mainT t ! 3) \<and>
            main_index (collT t ! ((3 + d) mod bucket_count t)) = 3} =
      {j. j < bucket_count t \<and> cvalid (collT t ! j) \<and> main_index (collT t ! j) = 3}"
proof -
  have "\<exists>t. run_operations cfg_nat (Suc (Suc 0)) empty_map
          [Insert 0 100, Insert 16 116, Insert 32 132, Insert 3 103, Insert 19 119, Erase 32]
        = Some (Inr t) \<and>
      bucket_count t = 2 ^ 4 \<and> mvalid (mainT t ! 3) \<and> chain_length (mainT t ! 3) = 1"
    by (simp add: hm_eval)
  then obtain t where t: "run_operations cfg_nat (Suc (Suc 0)) empty_map
          [Insert 0 100, Insert 16 116, Insert 32 132, Insert 3 103, Insert 19 119, Erase 32]
        = Some (Inr t)"
    "bucket_count t = 2 ^ 4" "mvalid (mainT t ! 3)" "chain_length (mainT t ! 3) = 1"
    by blast
  have lt: "3 < bucket_count t" using t(2) by simp
  from invariant_preservation[OF t(1)]
  have "\<forall>b < bucket_count t. mvalid (mainT t ! b) \<longrightarrow>
       {(b + d) mod bucket_count t | d. d < chain_length (mainT t ! b) \<and>
            main_index (collT t ! ((b + d) mod bucket_count t)) = b} =
       {j. j < bucket_count t \<and> cvalid (collT t ! j) \<and> main_index (collT t ! j) = b}"
    by (rule conjunct2)
  from this[rule_format, OF lt t(3)] t show ?thesis by blast
qed

text \<open>
  C10.  In every table reached from the empty map by insertions and removals, the last slot
  of the span of an occupied bucket with a non-empty span is owned by that bucket.
\<close>

theorem true_tail_invariant:
  assumes "run_operations cfg f empty_map ops = Some (Inr t)"
    and "b < bucket_count t" and "mvalid (mainT t ! b)" and "0 < chain_length (mainT t ! b)"
  shows "main_index (collT t ! ((b + chain_length (mainT t ! b) - 1) mod bucket_count t)) = b"
proof -
  from run_operations_ok[OF empty_map_ok assms(1)] have ok: "table_ok cfg t" .
  with assms(2) have inv: "table_inv cfg t" by (auto simp: table_ok_def unallocated_def)
  then obtain mt ct where t: "main_table t = Some mt" "collision_table t = Some ct"
    and tok: "tail_ok (bucket_count t) mt ct"
    by (elim table_invE)
  with assms(2-4) show ?thesis unfolding tail_ok_def by simp
qed

theorem true_tail_invariant_witness:
  "\<exists>t. run_operations cfg_nat (Suc (Suc 0)) empty_map
          [Insert 0 100, Insert 16 116, Insert 1 101, Insert 32 132, Erase 0]
        = Some (Inr t) \<and>
      0 < bucket_count t \<and> mvalid (mainT t ! 0) \<and> 0 < chain_length (mainT t ! 0) \<and>
      main_index (collT t ! ((0 + chain_length (mainT t ! 0) - 1) mod bucket_count t)) = 0"
proof -
  have "\<exists>t. run_operations cfg_nat (Suc (Suc 0)) empty_map
          [Insert 0 100, Insert 16 116, Insert 1 101, Insert 32 132, Erase 0]
        = Some (Inr t) \<and>
      0 < bucket_count t \<and> mvalid (mainT t ! 0) \<and> 0 < chain_length (mainT t ! 0)"
    by (simp add: hm_eval)
  then obtain t where t: "run_operations cfg_nat (Suc (Suc 0)) empty_map
          [Insert 0 100, Insert 16 116, Insert 1 101, Insert 32 132, Erase 0]
        = Some (Inr t)"
    "0 < bucket_count t" "mvalid (mainT t ! 0)" "0 < chain_length (mainT t ! 0)"
    by blast
  from true_tail_invariant[OF t] t show ?thesis by blast
qed

lemma run_inserts_keys:
  "table_ok cfg t \<Longrightarrow>
   run_operations cfg f t (map (\<lambda>(k, v). Insert k v) kvs) = Some (Inr t') \<Longrightarrow>
   fst ` entries t' = fst ` entries t \<union> fst ` set kvs"
proof (induction kvs arbitrary: t)
  case Nil
  then show ?case by simp
next
  case (Cons kv kvs)
  obtain k v where kv: "kv = (k, v)" by (cases kv)
  from Cons.prems(2) obtain r where s: "try_insert cfg f t k v = Some (Inr r)"
    and r: "run_operations cfg f (fst r) (map (\<lambda>(k, v). Insert k v) kvs) = Some (Inr t')"
    unfolding kv by (auto simp: apply_operation_def split: option.splits sum.splits)
  note ti = try_insert_ok[OF Cons.prems(1) s]
  have "table_ok cfg (fst r)" using ti(1) by (simp add: table_ok_def)
  from Cons.IH[OF this r] ti(2) kv show ?case by auto
qed

lemma remove_keys_ok:
  "table_ok cfg t \<Longrightarrow>
   table_ok cfg (remove_keys cfg t ks) \<and>
   entries (remove_keys cfg t ks) = {p \<in> entries t. fst p \<notin> set ks}"
proof (induction ks arbitrary: t)
  case Nil
  then show ?case by simp
next
  case (Cons k ks)
  note rk = remove_key_ok[OF Cons.prems, of k]
  from Cons.IH[OF rk(1)] rk(2) show ?case by auto
qed

lemma first_valid_main_None:
  "(\<And>i. a \<le> i \<Longrightarrow> i < a + r \<Longrightarrow> isInvalid (chain_length (mt ! i))) \<Longrightarrow>
   first_valid_main mt a r = None"
  by (induction r arbitrary: a) auto

lemma first_valid_collision_None:
  "(\<And>i. a \<le> i \<Longrightarrow> i < a + r \<Longrightarrow> isInvalid (main_index (ct ! i))) \<Longrightarrow>
   first_valid_collision ct a r = None"
  by (induction r arbitrary: a) auto

lemma no_entries_empty:
  assumes ok: "table_ok cfg t" and e: "entries t = {}"
  shows "element_count t = 0" and "begin_hm t = end_hm" and "value_ptr (find_hm cfg t k) = None"
proof -
  have "element_count t = 0 \<and> begin_hm t = end_hm \<and> value_ptr (find_hm cfg t k) = None"
    using ok
  proof (cases rule: table_ok_cases)
    case unalloc
    then show ?thesis by (simp add: begin_hm_def find_hm_def end_hm_def)
  next
    case alloc
    from alloc(1) obtain mt ct where t: "main_table t = Some mt" "collision_table t = Some ct"
      and n: "length mt = bucket_count t" "length ct = bucket_count t"
      and cnt: "count_ok (element_count t) (bucket_count t) mt ct"
      by (elim table_invE)
    have nm: "\<And>i. i < bucket_count t \<Longrightarrow> \<not> mvalid (mt ! i)"
    proof
      fix i assume "i < bucket_count t" "mvalid (mt ! i)"
      with n have "(mkey (mt ! i), mval (mt ! i)) \<in> entries t"
        unfolding entries_iff[OF t] by auto
      with e show False by simp
    qed
    have nc: "\<And>j. j < bucket_count t \<Longrightarrow> \<not> cvalid (ct ! j)"
    proof
      fix j assume "j < bucket_count t" "cvalid (ct ! j)"
      with n have "(ckey (ct ! j), cval (ct ! j)) \<in> entries t"
        unfolding entries_iff[OF t] by auto
      with e show False by simp
    qed
    have "{i. i < bucket_count t \<and> mvalid (mt ! i)} = {}" using nm by auto
    moreover have "{j. j < bucket_count t \<and> cvalid (ct ! j)} = {}" using nc by auto
    ultimately have c0: "element_count t = 0" using cnt by (simp add: count_ok_def)
    have "first_valid_main mt 0 (bucket_count t) = None"
      using nm by (intro first_valid_main_None) (simp add: mvalid_def)
    moreover have "first_valid_collision ct 0 (bucket_count t) = None"
      using nc by (intro first_valid_collision_None) (simp add: cvalid_def)
    ultimately have b: "begin_hm t = end_hm" using t by (simp add: begin_hm_def)
    have "value_ptr (find_hm cfg t k) = None"
      using find_hm_found_iff[OF alloc(1), of k] e by simp
    with c0 b show ?thesis by simp
  qed
  then show "element_count t = 0" and "begin_hm t = end_hm"
    and "value_ptr (find_hm cfg t k) = None" by simp_all
qed

text \<open>
  C3.  Take a table built from the empty map by any sequence of insertions, and remove its
  keys one by one, in any order (repetitions allowed).  Then the size is 0, \<open>find\<close> returns
  the end for every key, and \<open>begin() == end()\<close>.  The hash function is arbitrary, so the
  keys may all share one bucket.
\<close>

theorem deletion_completeness:
  assumes "run_operations cfg f empty_map (map (\<lambda>(k, v). Insert k v) kvs) = Some (Inr t)"
    and "set ks = fst ` set kvs"
  shows "size_hm (remove_keys cfg t ks) = 0 \<and>
    (\<forall>k. iter_eq (find_hm cfg (remove_keys cfg t ks) k) end_hm) \<and>
    iter_eq (begin_hm (remove_keys cfg t ks)) end_hm"
proof -
  from run_operations_ok[OF empty_map_ok assms(1)] have ok: "table_ok cfg t" .
  have "fst ` entries t = fst ` set kvs"
    using run_inserts_keys[OF empty_map_ok assms(1)]
    by (simp add: entries_def empty_map_def)
  then have "\<And>p. p \<in> entries t \<Longrightarrow> fst p \<in> set ks"
    unfolding assms(2) by blast
  with remove_keys_ok[OF ok, of ks]
  have ok': "table_ok cfg (remove_keys cfg t ks)" and e: "entries (remove_keys cfg t ks) = {}"
    by auto
  from no_entries_empty[OF ok' e] show ?thesis
    by (simp add: size_hm_def iter_eq_def end_hm_def)
qed

theorem deletion_completeness_witness:
  "\<exists>t. run_operations cfg_degenerate (Suc (Suc 0)) empty_map
          (map (\<lambda>(k, v). Insert k v) [(1, 10), (2, 20), (3, 30)]) = Some (Inr t) \<and>
      set [2, 3, 1] = fst ` set [(1, 10), (2, 20), (3::nat, 30::nat)] \<and>
      chain_length (mainT t ! 0) = 2 \<and>
      size_hm (remove_keys cfg_degenerate t [2, 3, 1]) = 0 \<and>
      (\<forall>k. iter_eq (find_hm cfg_degenerate (remove_keys cfg_degenerate t [2, 3, 1]) k) end_hm) \<and>
      iter_eq (begin_hm (remove_keys cfg_degenerate t [2, 3, 1])) end_hm"
proof -
  have "\<exists>t. run_operations cfg_degenerate (Suc (Suc 0)) empty_map
          (map (\<lambda>(k, v). Insert k v) [(1, 10), (2, 20), (3, 30)]) = Some (Inr t) \<and>
      chain_length (mainT t ! 0) = 2"
    by (simp add: hm_eval cfg_degenerate_def)
  then obtain t where t: "run_operations cfg_degenerate (Suc (Suc 0)) empty_map
          (map (\<lambda>(k, v). Insert k v) [(1, 10), (2, 20), (3, 30)]) = Some (Inr t)"
     "chain_length (mainT t ! 0) = 2" by blast
  have s: "set [2, 3, 1] = fst ` set [(1, 10), (2, 20), (3::nat, 30::nat)]" by auto
  from deletion_completeness[OF t(1) s] t s show ?thesis by blast
qed

text \<open>
  C6.  Inserting a key that a table already holds returns the cursor of \<open>find\<close> and
  \<open>false\<close>, and the table that comes back is the table that went in: the stored value, the
  bucket count and the element count are untouched.  No fuel is needed.  On a well-formed
  table the slot that the cursor names holds the key and its stored value.
\<close>

theorem insert_idempotent:
  assumes "lookup cfg t k = Some v"
  shows "try_insert cfg f t k v' = Some (Inr (t, find_hm cfg t k, False)) \<and>
    map_option snd (slot_entry t (find_hm cfg t k)) = Some v \<and>
    (table_ok cfg t \<longrightarrow> slot_entry t (find_hm cfg t k) = Some (k, v))"
proof -
  from assms have vp: "value_ptr (find_hm cfg t k) \<noteq> None"
    by (auto simp: lookup_def slot_entry_def split: option.splits)
  then have mt: "main_table t \<noteq> None"
    by (auto simp: find_hm_def end_hm_def split: if_splits)
  from vp mt have "try_insert cfg f t k v' = Some (Inr (t, find_hm cfg t k, False))"
    by (auto simp: try_insert.simps Let_def)
  moreover have "map_option snd (slot_entry t (find_hm cfg t k)) = Some v"
    using assms by (simp add: lookup_def)
  moreover have "slot_entry t (find_hm cfg t k) = Some (k, v)" if "table_ok cfg t"
  proof -
    from that mt have inv: "table_inv cfg t" by (auto simp: table_ok_def unallocated_def)
    from assms have "(k, v) \<in> entries t" using lookup_iff[OF inv] by simp
    from find_hm_present[OF inv this] show ?thesis by simp
  qed
  ultimately show ?thesis by blast
qed

theorem insert_idempotent_witness:
  "\<exists>t. run_operations cfg_str (Suc (Suc 0)) empty_map [Insert 1 ''one''] = Some (Inr t) \<and>
      lookup cfg_str t 1 = Some ''one'' \<and>
      try_insert cfg_str 0 t 1 ''one_duplicate'' = Some (Inr (t, find_hm cfg_str t 1, False)) \<and>
      map_option snd (slot_entry t (find_hm cfg_str t 1)) = Some ''one''"
proof -
  have "\<exists>t. run_operations cfg_str (Suc (Suc 0)) empty_map [Insert 1 ''one''] = Some (Inr t) \<and>
      lookup cfg_str t 1 = Some ''one''"
    by (simp add: hm_eval cfg_str_def)
  then obtain t where t: "run_operations cfg_str (Suc (Suc 0)) empty_map [Insert 1 ''one''] = Some (Inr t)"
    "lookup cfg_str t 1 = Some ''one''" by blast
  from insert_idempotent[OF t(2), of 0 "''one_duplicate''"] t show ?thesis by blast
qed

lemma pow2_less_double:
  assumes "(2::nat) ^ a < 2 ^ b"
  shows "2 * 2 ^ a \<le> (2::nat) ^ b"
proof -
  from assms have "a < b" by (simp add: power_strict_increasing_iff)
  then have "Suc a \<le> b" by simp
  then have "(2::nat) ^ Suc a \<le> 2 ^ b" by (rule power_increasing) simp
  then show ?thesis by simp
qed

lemma try_insert_at_decision:
  assumes nc: "\<not> isInvalid (collision_index (find_hm cfg t k))"
  shows "try_insert_at cfg f t k v (find_hm cfg t k) =
    (if bucket_count t < 1048576 div sizeof_MainEntry cfg \<and> bucket_count t < 4 * element_count t
     then try_insert_resize cfg f t k v (bucket_count t + 1)
     else case probe_for cfg t k of
       None \<Rightarrow> None
     | Some (index, new_span) \<Rightarrow>
         if (4 \<le> new_span \<and> bucket_count t < 4194304 div sizeof_MainEntry cfg)
            \<or> bucket_count t div 2 \<le> new_span
         then try_insert_resize cfg f t k v (bucket_count t + 1)
         else Some (Inr (store_collision t (bucket_index (find_hm cfg t k)) index new_span k v)))"
proof -
  have c: "bucket_count t < element_count t * 4 \<longleftrightarrow> bucket_count t < 4 * element_count t"
    by arith
  show ?thesis
    using nc unfolding try_insert_at.simps[of cfg f t k v "find_hm cfg t k"] probe_for_def Let_def c
    by simp
qed

lemma try_insert_growth:
  assumes inv: "table_inv cfg t"
    and nk: "value_ptr (find_hm cfg t k) = None"
    and nc: "\<not> isInvalid (collision_index (find_hm cfg t k))"
    and ti: "try_insert cfg f t k v = Some (Inr (t', it, ins))"
  shows "bucket_count t < bucket_count t' \<longleftrightarrow> growth_condition cfg t k"
proof -
  from inv have mt: "main_table t \<noteq> None" by (elim table_invE) simp
  from nk have nke: "k \<notin> fst ` entries t" using find_hm_found_iff[OF inv, of k] by simp
  have rs: "try_insert_resize_spec cfg f" using all_specs[of cfg f] by simp
  have grow: "bucket_count t < bucket_count t'"
    if "try_insert_resize cfg f t k v nb = Some (Inr (t', it, ins))" "bucket_count t < nb" for nb
  proof -
    from rs inv nke that(1) have "nb \<le> bucket_count (fst (t', it, ins))"
      unfolding try_insert_resize_spec_def by blast
    with that(2) show ?thesis by simp
  qed
  show ?thesis
  proof (cases "bucket_count t < element_count t + 1")
    case True
    with ti mt nk have "try_insert_resize cfg f t k v (element_count t + 1) = Some (Inr (t', it, ins))"
      by (auto simp: try_insert.simps Let_def)
    from grow[OF this True] True show ?thesis by (simp add: growth_condition_def)
  next
    case full: False
    with ti mt nk have at: "try_insert_at cfg f t k v (find_hm cfg t k) = Some (Inr (t', it, ins))"
      by (auto simp: try_insert.simps Let_def)
    note dec = at[unfolded try_insert_at_decision[OF nc]]
    show ?thesis
    proof (cases "bucket_count t < 1048576 div sizeof_MainEntry cfg \<and> bucket_count t < 4 * element_count t")
      case True
      with dec have "try_insert_resize cfg f t k v (bucket_count t + 1) = Some (Inr (t', it, ins))"
        by simp
      from grow[OF this] True show ?thesis by (simp add: growth_condition_def)
    next
      case small: False
      with dec obtain index new_span where p: "probe_for cfg t k = Some (index, new_span)"
        by (auto split: option.splits)
      show ?thesis
      proof (cases "(4 \<le> new_span \<and> bucket_count t < 4194304 div sizeof_MainEntry cfg)
            \<or> bucket_count t div 2 \<le> new_span")
        case True
        with dec small p
        have "try_insert_resize cfg f t k v (bucket_count t + 1) = Some (Inr (t', it, ins))"
          by simp
        from grow[OF this] True p show ?thesis by (simp add: growth_condition_def)
      next
        case False
        with dec small p
        have "t' = fst (store_collision t (bucket_index (find_hm cfg t k)) index new_span k v)"
          by auto
        then have "bucket_count t' = bucket_count t" by (simp add: store_collision_def)
        with False small full p show ?thesis by (simp add: growth_condition_def)
      qed
    qed
  qed
qed

text \<open>
  C4, as the specification words it, fails.  After the insertions of 0, 1, 2, 3 and 16 into
  a \<open>HashMap<uint64_t, uint64_t>\<close> the table has 16 buckets and 5 elements, and bucket 0
  has span 1 (key 16 is in its chain).  Key 32 needs an overflow slot of bucket 0.  None of
  (a), (b), (c) holds: the old span is 1, not 0; the new span is 2, below 4 and below 8.
  Yet the insertion grows the table to 32 buckets, because \<open>16 < 4 * 5\<close>.
\<close>

theorem growth_not_only_first_collision:
  "run_operations cfg_nat (Suc (Suc 0)) empty_map
      [Insert 0 100, Insert 1 101, Insert 2 102, Insert 3 103, Insert 16 116]
     = Some (Inr growth_example) \<and>
   bucket_count growth_example = 16 \<and> element_count growth_example = 5 \<and>
   chain_length (mainT growth_example ! (hash_function cfg_nat 32 mod bucket_count growth_example)) = 1 \<and>
   value_ptr (find_hm cfg_nat growth_example 32) = None \<and>
   \<not> isInvalid (collision_index (find_hm cfg_nat growth_example 32)) \<and>
   probe_for cfg_nat growth_example 32 = Some (1, 2) \<and>
   \<not> claimed_growth_condition cfg_nat growth_example 32 \<and>
   map_option (map_sum id (bucket_count \<circ> fst))
     (try_insert cfg_nat (Suc (Suc 0)) growth_example 32 132) = Some (Inr 32)"
proof -
  have "\<exists>t. run_operations cfg_nat (Suc (Suc 0)) empty_map
          [Insert 0 100, Insert 1 101, Insert 2 102, Insert 3 103, Insert 16 116] = Some (Inr t) \<and>
      bucket_count t = 16 \<and> element_count t = 5 \<and>
      chain_length (mainT t ! (hash_function cfg_nat 32 mod bucket_count t)) = 1 \<and>
      value_ptr (find_hm cfg_nat t 32) = None \<and>
      \<not> isInvalid (collision_index (find_hm cfg_nat t 32)) \<and>
      probe_for cfg_nat t 32 = Some (1, 2) \<and>
      \<not> claimed_growth_condition cfg_nat t 32 \<and>
      (\<exists>t' it. try_insert cfg_nat (Suc (Suc 0)) t 32 132 = Some (Inr (t', it, True)) \<and>
         bucket_count t' = 32)"
    by (simp add: hm_eval cfg_nat_def claimed_growth_condition_def probe_for_def)
  then obtain t t' it where t: "run_operations cfg_nat (Suc (Suc 0)) empty_map
          [Insert 0 100, Insert 1 101, Insert 2 102, Insert 3 103, Insert 16 116] = Some (Inr t)"
      "bucket_count t = 16 \<and> element_count t = 5 \<and>
      chain_length (mainT t ! (hash_function cfg_nat 32 mod bucket_count t)) = 1 \<and>
      value_ptr (find_hm cfg_nat t 32) = None \<and>
      \<not> isInvalid (collision_index (find_hm cfg_nat t 32)) \<and>
      probe_for cfg_nat t 32 = Some (1, 2) \<and>
      \<not> claimed_growth_condition cfg_nat t 32"
      "try_insert cfg_nat (Suc (Suc 0)) t 32 132 = Some (Inr (t', it, True))"
      "bucket_count t' = 32"
    by blast
  have g: "growth_example = t"
    by (simp only: growth_example_def t(1) table_of_def option.case sum.case)
  have m: "map_option (map_sum id (bucket_count \<circ> fst))
     (try_insert cfg_nat (Suc (Suc 0)) t 32 132) = Some (Inr 32)"
    by (simp add: t(3) t(4))
  from t(1) t(2) m show ?thesis unfolding g by blast
qed

text \<open>
  C5.  \<open>remove(iterator)\<close> at a cursor that \<open>remove\<close> itself returned.  In \<open>chain_example\<close>
  the cursor of \<open>find(32)\<close> stands on the tail of bucket 0's chain (collision slot 1).
  Removing there advances the cursor with \<open>operator++\<close>, which moves \<open>collision_index\<close>
  to slot 3 (key 19, owned by bucket 3) and leaves \<open>bucket_index = 0\<close>.  The cursor
  dereferences to the live entry \<open>(19, 119)\<close>.  Removing at this cursor treats slot 3 as a
  slot of bucket 0: it overwrites key 19 with key 16, the tail of bucket 0, and empties
  slot 0.  Afterwards \<open>size()\<close> is 3, but only keys 0 and 3 can be found: key 16, which
  was never erased, is lost, and bucket 3 has span 1 over a slot holding key 16.
\<close>

theorem remove_at_returned_cursor:
  "run_operations cfg_nat (Suc (Suc 0)) empty_map
      [Insert 0 100, Insert 16 116, Insert 32 132, Insert 3 103, Insert 19 119]
     = Some (Inr chain_example) \<and>
   find_hm cfg_nat chain_example 32
     = \<lparr>bucket_index = 0, collision_index = 1, value_ptr = Some (CollisionValue 1)\<rparr> \<and>
   snd (remove_iter chain_example (find_hm cfg_nat chain_example 32))
     = \<lparr>bucket_index = 0, collision_index = 3, value_ptr = Some (CollisionValue 3)\<rparr> \<and>
   deref cfg_nat (fst (remove_iter chain_example (find_hm cfg_nat chain_example 32)))
         (snd (remove_iter chain_example (find_hm cfg_nat chain_example 32))) = Some (19, 119) \<and>
   main_index (collT (fst (remove_iter chain_example (find_hm cfg_nat chain_example 32))) ! 3) = 3 \<and>
   size_hm (fst (remove_twice chain_example (find_hm cfg_nat chain_example 32))) = 3 \<and>
   lookup cfg_nat (fst (remove_twice chain_example (find_hm cfg_nat chain_example 32))) 0 = Some 100 \<and>
   lookup cfg_nat (fst (remove_twice chain_example (find_hm cfg_nat chain_example 32))) 3 = Some 103 \<and>
   lookup cfg_nat (fst (remove_twice chain_example (find_hm cfg_nat chain_example 32))) 16 = None \<and>
   lookup cfg_nat (fst (remove_twice chain_example (find_hm cfg_nat chain_example 32))) 19 = None \<and>
   lookup cfg_nat (fst (remove_twice chain_example (find_hm cfg_nat chain_example 32))) 32 = None \<and>
   ckey (collT (fst (remove_twice chain_example (find_hm cfg_nat chain_example 32))) ! 3) = 16 \<and>
   main_index (collT (fst (remove_twice chain_example (find_hm cfg_nat chain_example 32))) ! 3) = 3"
proof -
  define P where "P t \<longleftrightarrow>
   find_hm cfg_nat t 32
     = \<lparr>bucket_index = 0, collision_index = 1, value_ptr = Some (CollisionValue 1)\<rparr> \<and>
   snd (remove_iter t (find_hm cfg_nat t 32))
     = \<lparr>bucket_index = 0, collision_index = 3, value_ptr = Some (CollisionValue 3)\<rparr> \<and>
   deref cfg_nat (fst (remove_iter t (find_hm cfg_nat t 32)))
         (snd (remove_iter t (find_hm cfg_nat t 32))) = Some (19, 119) \<and>
   main_index (collT (fst (remove_iter t (find_hm cfg_nat t 32))) ! 3) = 3 \<and>
   size_hm (fst (remove_twice t (find_hm cfg_nat t 32))) = 3 \<and>
   lookup cfg_nat (fst (remove_twice t (find_hm cfg_nat t 32))) 0 = Some 100 \<and>
   lookup cfg_nat (fst (remove_twice t (find_hm cfg_nat t 32))) 3 = Some 103 \<and>
   lookup cfg_nat (fst (remove_twice t (find_hm cfg_nat t 32))) 16 = None \<and>
   lookup cfg_nat (fst (remove_twice t (find_hm cfg_nat t 32))) 19 = None \<and>
   lookup cfg_nat (fst (remove_twice t (find_hm cfg_nat t 32))) 32 = None \<and>
   ckey (collT (fst (remove_twice t (find_hm cfg_nat t 32))) ! 3) = 16 \<and>
   main_index (collT (fst (remove_twice t (find_hm cfg_nat t 32))) ! 3) = 3" for t
  have "\<exists>t. run_operations cfg_nat (Suc (Suc 0)) empty_map
      [Insert 0 100, Insert 16 116, Insert 32 132, Insert 3 103, Insert 19 119] = Some (Inr t) \<and> P t"
    apply (simp add: hm_eval cfg_nat_def)
    apply (simp add: P_def hm_eval cfg_nat_def remove_twice_def)
    done
  then obtain t where t: "run_operations cfg_nat (Suc (Suc 0)) empty_map
      [Insert 0 100, Insert 16 116, Insert 32 132, Insert 3 103, Insert 19 119] = Some (Inr t)"
   and r: "P t"
    by blast
  have g: "chain_example = t" by (simp only: chain_example_def t table_of_def option.case sum.case)
  from t r show ?thesis unfolding g P_def by blast
qed

text \<open>
  C7.  \<open>remove(key)\<close> on the map of the test \<open>Erase\<close>: removing the stored key 2 leaves two
  elements and key 2 is not found; removing the absent key 999 returns the table it was
  given.  The function returns the table only: there is no count of removed elements.
\<close>

theorem remove_key_returns_no_count:
  "run_operations cfg_str (Suc (Suc 0)) empty_map
      [Insert 1 ''one'', Insert 2 ''two'', Insert 3 ''three''] = Some (Inr erase_test_map) \<and>
   size_hm erase_test_map = 3 \<and>
   size_hm (remove_key cfg_str erase_test_map 2) = 2 \<and>
   lookup cfg_str (remove_key cfg_str erase_test_map 2) 2 = None \<and>
   lookup cfg_str (remove_key cfg_str erase_test_map 2) 1 = Some ''one'' \<and>
   lookup cfg_str (remove_key cfg_str erase_test_map 2) 3 = Some ''three'' \<and>
   remove_key cfg_str erase_test_map 999 = erase_test_map"
proof -
  define P where "P t \<longleftrightarrow> size_hm t = 3 \<and>
   size_hm (remove_key cfg_str t 2) = 2 \<and>
   lookup cfg_str (remove_key cfg_str t 2) 2 = None \<and>
   lookup cfg_str (remove_key cfg_str t 2) 1 = Some ''one'' \<and>
   lookup cfg_str (remove_key cfg_str t 2) 3 = Some ''three'' \<and>
   remove_key cfg_str t 999 = t" for t
  have "\<exists>t. run_operations cfg_str (Suc (Suc 0)) empty_map
      [Insert 1 ''one'', Insert 2 ''two'', Insert 3 ''three''] = Some (Inr t) \<and> P t"
    apply (simp add: hm_eval cfg_str_def)
    apply (simp add: P_def hm_eval cfg_str_def)
    done
  then obtain t where t: "run_operations cfg_str (Suc (Suc 0)) empty_map
      [Insert 1 ''one'', Insert 2 ''two'', Insert 3 ''three''] = Some (Inr t)"
   and r: "P t"
    by blast
  have g: "erase_test_map = t" by (simp only: erase_test_map_def t table_of_def option.case sum.case)
  from t r show ?thesis unfolding g P_def by blast
qed

text \<open>
  C9.  The test \<open>MoveConstruction\<close>: \<open>HashMap moved(std::move(original))\<close> runs the copy
  constructor, which fills the new map with one \<open>insert\<close> per entry of the source and
  only reads the source: \<open>original\<close> is returned as it was, with size 2, not 0.  In this
  instance \<open>operator*\<close> reads the keys from padding, so both entries arrive with key 0 and
  the new map has one element.
\<close>

theorem move_construct_copies:
  "run_operations cfg_str (Suc (Suc 0)) empty_map
      [Insert 1 ''one'', Insert 2 ''two''] = Some (Inr move_test_original) \<and>
   size_hm move_test_original = 2 \<and>
   map_option (map_sum id snd)
     (move_construct cfg_str (Suc (Suc (Suc 0))) move_test_original)
     = Some (Inr move_test_original) \<and>
   map_option (map_sum id (map_prod size_hm size_hm))
     (move_construct cfg_str (Suc (Suc (Suc 0))) move_test_original) = Some (Inr (1, 2))"
proof -
  define P where "P t \<longleftrightarrow> size_hm t = 2 \<and>
   map_option (map_sum id snd)
     (move_construct cfg_str (Suc (Suc (Suc 0))) t) = Some (Inr t) \<and>
   map_option (map_sum id (map_prod size_hm size_hm))
     (move_construct cfg_str (Suc (Suc (Suc 0))) t) = Some (Inr (1, 2))" for t
  have "\<exists>t. run_operations cfg_str (Suc (Suc 0)) empty_map
      [Insert 1 ''one'', Insert 2 ''two''] = Some (Inr t) \<and> P t"
    apply (simp add: hm_eval cfg_str_def)
    apply (simp add: P_def hm_eval cfg_str_def move_construct_def copy_construct_def copy_assign_def
        clear_hm_def)
    done
  then obtain t where t: "run_operations cfg_str (Suc (Suc 0)) empty_map
      [Insert 1 ''one'', Insert 2 ''two''] = Some (Inr t)"
   and r: "P t"
    by blast
  have g: "move_test_original = t"
    by (simp only: move_test_original_def t table_of_def option.case sum.case)
  from t r show ?thesis unfolding g P_def by blast
qed

text \<open>The probe of \<open>try_insert\<close> ends when the collision table has an empty slot.\<close>

lemma probe_finds_free:
  assumes "index < 2 ^ e" "j < 2 ^ e" "\<not> cvalid (ct ! j)"
  shows "probe ct (size_dec (2 ^ e)) index cl (2 ^ e) \<noteq> None"
proof
  assume none: "probe ct (size_dec (2 ^ e)) index cl (2 ^ e) = None"
  let ?d = "(j + 2 ^ e - index) mod 2 ^ e"
  have "?d < 2 ^ e" by simp
  from probe_None[OF assms(1) none this] have "cvalid (ct ! ((index + ?d) mod 2 ^ e))" .
  with pos_of_off[OF assms(1,2)] assms(3) show False by simp
qed

lemma free_collision_slot:
  assumes cnt: "count_ok c n mt ct" and lt: "c < n"
  shows "\<exists>j < n. \<not> cvalid (ct ! j)"
proof (rule ccontr)
  assume "\<not> (\<exists>j < n. \<not> cvalid (ct ! j))"
  then have "{j. j < n \<and> cvalid (ct ! j)} = {..<n}" by auto
  then have "card {j. j < n \<and> cvalid (ct ! j)} = n" by simp
  with cnt lt show False by (simp add: count_ok_def)
qed

text \<open>
  In a table without holes the slots between a bucket and the empty slot that the probe
  finds are all occupied, so the new span is at most the number of elements.
\<close>

lemma covered_span_le_count:
  assumes cnt: "count_ok c n mt ct" and b: "b < n" "mvalid (mt ! b)"
    and covered: "\<forall>x < m. cvalid (ct ! ((b + x) mod n))"
    and free: "\<not> cvalid (ct ! ((b + m) mod n))"
  shows "Suc m \<le> c"
proof -
  have npos: "0 < n" using b by simp
  have mn: "m < n"
  proof (rule ccontr)
    assume "\<not> m < n"
    then have "m mod n < m" using npos by (meson mod_less_divisor not_less less_le_trans)
    with covered have "cvalid (ct ! ((b + m mod n) mod n))" by simp
    moreover have "(b + m mod n) mod n = (b + m) mod n" by (rule mod_add_right_eq)
    ultimately show False using free by simp
  qed
  let ?S = "(\<lambda>x. (b + x) mod n) ` {..<m}"
  have inj: "inj_on (\<lambda>x. (b + x) mod n) {..<m}"
  proof (rule inj_onI)
    fix x y assume "x \<in> {..<m}" "y \<in> {..<m}" "(b + x) mod n = (b + y) mod n"
    with mn b(1) show "x = y" by (intro pos_inj[of b n x y]) auto
  qed
  have sub: "?S \<subseteq> {j. j < n \<and> cvalid (ct ! j)}" using covered npos by auto
  have "card ?S = m" using inj by (simp add: card_image)
  moreover have "card ?S \<le> card {j. j < n \<and> cvalid (ct ! j)}"
    by (rule card_mono[OF _ sub]) simp
  ultimately have "m \<le> card {j. j < n \<and> cvalid (ct ! j)}" by simp
  moreover have "0 < card {i. i < n \<and> mvalid (mt ! i)}"
  proof -
    have "b \<in> {i. i < n \<and> mvalid (mt ! i)}" using b by simp
    moreover have "finite {i. i < n \<and> mvalid (mt ! i)}" by simp
    ultimately show ?thesis using card_gt_0_iff by blast
  qed
  ultimately show ?thesis using cnt by (simp add: count_ok_def)
qed

text \<open>
  \<open>try_insert\<close> after the lookup, for a key that is not stored, in a table that is not
  full: it stores the entry, or it takes the growth path; and a table without holes takes
  the growth path only below four times its element count or below the upper size
  threshold.
\<close>

lemma try_insert_at_progress:
  assumes inv: "table_inv cfg t" and nk: "k \<notin> fst ` entries t"
    and lt: "element_count t < bucket_count t"
  shows "(\<exists>r. try_insert_at cfg f t k v (find_hm cfg t k) = Some (Inr r)) \<or>
    (try_insert_at cfg f t k v (find_hm cfg t k)
       = try_insert_resize cfg f t k v (bucket_count t + 1) \<and>
     (table_dense t \<longrightarrow> bucket_count t < 4 * element_count t
        \<or> bucket_count t < 4194304 div sizeof_MainEntry cfg))"
proof -
  from inv obtain mt ct e where t: "main_table t = Some mt" "collision_table t = Some ct"
    and n: "bucket_count t = 2 ^ e" "e \<le> 63"
    and len: "length mt = bucket_count t" "length ct = bucket_count t"
    and cnt: "count_ok (element_count t) (bucket_count t) mt ct"
    by (elim table_invE)
  define n where "n = bucket_count t"
  define b where "b = hash_function cfg k mod n"
  have n2: "n = 2 ^ e" using n by (simp add: n_def)
  have npos: "0 < n" using n by (simp add: n_def)
  have nle: "n \<le> 2 ^ 63" using inv unfolding n_def by (rule table_inv_le)
  have bn: "b < n" using npos by (simp add: b_def)
  have it_eq: "find_hm cfg t k = \<lparr>bucket_index = b,
     collision_index = (if mvalid (mainT t ! b) then (b + chain_length (mainT t ! b)) mod n
        else invalid_marker), value_ptr = None\<rparr>"
    unfolding b_def n_def by (rule find_hm_absent[OF inv nk])
  show ?thesis
  proof (cases "mvalid (mainT t ! b)")
    case False
    then have "try_insert_at cfg f t k v (find_hm cfg t k) = Some (Inr (store_main t b k v))"
      by (simp add: try_insert_at.simps it_eq)
    then show ?thesis by blast
  next
    case True
    define s where "s = chain_length (mainT t ! b)"
    have mvb: "mvalid (mt ! b)" using True t by simp
    have ci: "collision_index (find_hm cfg t k) = (b + s) mod n"
      "bucket_index (find_hm cfg t k) = b"
      using True by (simp_all add: it_eq s_def)
    have "(b + s) mod n < n" using npos by simp
    then have civ: "\<not> isInvalid (collision_index (find_hm cfg t k))"
      using nle ci by (simp add: small_not_invalid)
    note dec = try_insert_at_decision[OF civ, of f v]
    have cpos: "0 < element_count t"
      using count_pos_main[OF cnt] bn mvb by (simp add: n_def)
    show ?thesis
    proof (cases "bucket_count t < 1048576 div sizeof_MainEntry cfg \<and> bucket_count t < 4 * element_count t")
      case True
      with dec show ?thesis by simp
    next
      case a: False
      have pf: "probe_for cfg t k = probe ct (size_dec (2 ^ e)) ((b + s) mod 2 ^ e) (s + 1) (2 ^ e)"
        using t n by (simp add: probe_for_def ci s_def mask_of_def n2[symmetric] Let_def)
      from free_collision_slot[OF cnt lt] obtain j where j: "j < 2 ^ e" "\<not> cvalid (ct ! j)"
        using n by auto
      have start: "(b + s) mod 2 ^ e < (2::nat) ^ e" by simp
      from probe_finds_free[OF start j, of "s + 1"] obtain idx cl where
        p: "probe ct (size_dec (2 ^ e)) ((b + s) mod 2 ^ e) (s + 1) (2 ^ e) = Some (idx, cl)"
        by fastforce
      show ?thesis
      proof (cases "(4 \<le> cl \<and> bucket_count t < 4194304 div sizeof_MainEntry cfg)
            \<or> bucket_count t div 2 \<le> cl")
        case False
        with dec a pf p have "try_insert_at cfg f t k v (find_hm cfg t k)
           = Some (Inr (store_collision t (bucket_index (find_hm cfg t k)) idx cl k v))" by auto
        then show ?thesis by blast
      next
        case True
        with dec a pf p have g: "try_insert_at cfg f t k v (find_hm cfg t k)
           = try_insert_resize cfg f t k v (bucket_count t + 1)" by auto
        have "bucket_count t < 4 * element_count t
            \<or> bucket_count t < 4194304 div sizeof_MainEntry cfg" if d: "table_dense t"
        proof -
          from probe_Some[OF p start] obtain d where d: "d < 2 ^ e"
            "idx = ((b + s) mod 2 ^ e + d) mod 2 ^ e" "cl = s + 1 + d" "\<not> cvalid (ct ! idx)"
            "\<forall>d' < d. cvalid (ct ! (((b + s) mod 2 ^ e + d') mod 2 ^ e))" by blast
          from \<open>table_dense t\<close> t have dn: "dense n mt ct" by (simp add: table_dense_def n_def)
          have shift: "((b + s) mod n + x) mod n = (b + (s + x)) mod n" for x
            by (simp add: mod_add_left_eq add.assoc)
          have covered: "\<forall>x < s + d. cvalid (ct ! ((b + x) mod n))"
          proof (intro allI impI)
            fix x assume x: "x < s + d"
            show "cvalid (ct ! ((b + x) mod n))"
            proof (cases "x < s")
              case True
              with dn bn mvb show ?thesis
                unfolding dense_def s_def using t by auto
            next
              case False
              then have "x - s < d" using x by simp
              with d(5) have "cvalid (ct ! (((b + s) mod n + (x - s)) mod n))" by (simp add: n2)
              then have "cvalid (ct ! ((b + (s + (x - s))) mod n))" unfolding shift .
              moreover have "s + (x - s) = x" using False by simp
              ultimately show ?thesis by simp
            qed
          qed
          have "idx = ((b + s) mod n + d) mod n" using d(2) by (simp add: n2)
          then have "idx = (b + (s + d)) mod n" unfolding shift .
          with d(4) have free: "\<not> cvalid (ct ! ((b + (s + d)) mod n))" by simp
          have cnt': "count_ok (element_count t) n mt ct" using cnt by (simp add: n_def)
          from covered_span_le_count[OF cnt' bn mvb covered free] d(3)
          have clc: "cl \<le> element_count t" by simp
          from True show ?thesis
          proof
            assume "4 \<le> cl \<and> bucket_count t < 4194304 div sizeof_MainEntry cfg"
            then show ?thesis by simp
          next
            assume "bucket_count t div 2 \<le> cl"
            with clc have "bucket_count t div 2 \<le> element_count t" by simp
            with cpos have "bucket_count t < 4 * element_count t" by linarith
            then show ?thesis by simp
          qed
        qed
        with g show ?thesis by blast
      qed
    qed
  qed
qed

text \<open>Head room: a larger table has at least as much, and a doubled table needs one doubling less.\<close>

lemma headroom_mono:
  "headroom E t j \<Longrightarrow> bucket_count t \<le> bucket_count t' \<Longrightarrow> headroom E t' j"
  unfolding headroom_def by (meson le_trans mult_le_mono1)

lemma headroom_double:
  assumes "headroom E t j" "0 < j" "2 * bucket_count t \<le> bucket_count t'"
  shows "headroom E t' (j - 1)"
proof -
  obtain i where j: "j = Suc i" using assms(2) by (cases j) auto
  have "2 ^ E \<le> bucket_count t * 2 ^ j" using assms(1) by (simp add: headroom_def)
  also have "\<dots> = (2 * bucket_count t) * 2 ^ i" by (simp add: j)
  also have "\<dots> \<le> bucket_count t' * 2 ^ i" using assms(3) by (rule mult_le_mono1)
  finally show ?thesis by (simp add: headroom_def j)
qed

lemma headroom_pos:
  assumes "headroom E t j" "bucket_count t < nb" "nb \<le> 2 ^ E"
  shows "0 < j"
proof (rule ccontr)
  assume "\<not> 0 < j"
  with assms(1) have "2 ^ E \<le> bucket_count t" by (simp add: headroom_def)
  with assms(2,3) show False by simp
qed

lemma grow_bound_le: "grow_bound cfg M E \<Longrightarrow> (2::nat) ^ E \<le> 2 ^ 62"
  unfolding grow_bound_def by (metis one_le_numeral power_increasing)

lemma ret_try_insert_at:
  assumes gb: "grow_bound cfg M E" and rg: "try_insert_resize_returns cfg M E f"
  shows "try_insert_at_returns cfg M E f"
  unfolding try_insert_at_returns_def
proof (intro allI impI)
  fix t k v j
  assume inv: "table_inv cfg t" and dn: "table_dense t" and nk: "k \<notin> fst ` entries t"
    and cM: "element_count t < M" and lt: "element_count t < bucket_count t"
    and hr: "headroom E t j" and fj: "2 * j \<le> f"
  from try_insert_at_progress[OF inv nk lt, of f v]
  show "\<exists>r. try_insert_at cfg f t k v (find_hm cfg t k) = Some (Inr r)"
  proof
    assume "\<exists>r. try_insert_at cfg f t k v (find_hm cfg t k) = Some (Inr r)"
    then show ?thesis .
  next
    assume g: "try_insert_at cfg f t k v (find_hm cfg t k)
       = try_insert_resize cfg f t k v (bucket_count t + 1) \<and>
     (table_dense t \<longrightarrow> bucket_count t < 4 * element_count t
        \<or> bucket_count t < 4194304 div sizeof_MainEntry cfg)"
    with dn have "bucket_count t < 4 * element_count t
        \<or> bucket_count t < 4194304 div sizeof_MainEntry cfg" by simp
    with gb cM have "bucket_count t < 2 ^ E" unfolding grow_bound_def by linarith
    then have nb: "bucket_count t + 1 \<le> 2 ^ E" by simp
    from rg inv nk cM lt nb hr fj
    have "\<exists>r. try_insert_resize cfg f t k v (bucket_count t + 1) = Some (Inr r)"
      unfolding try_insert_resize_returns_def
      by (metis less_add_one trans_less_add1)
    with g show ?thesis by simp
  qed
qed

lemma ret_try_insert_resize:
  assumes gb: "grow_bound cfg M E" and rs: "reserve_returns cfg M E f"
    and pl: "try_insert_at_returns cfg M E f"
  shows "try_insert_resize_returns cfg M E (Suc f)"
  unfolding try_insert_resize_returns_def
proof (intro allI impI)
  fix t k v nb j
  assume inv: "table_inv cfg t" and nk: "k \<notin> fst ` entries t"
    and cM: "element_count t < M" and cnb: "element_count t < nb"
    and bnb: "bucket_count t < nb" and nbE: "nb \<le> 2 ^ E"
    and hr: "headroom E t j" and fj: "2 * j \<le> Suc f"
  have jpos: "0 < j" using hr bnb nbE by (rule headroom_pos)
  have fj1: "2 * j \<le> f + 1" using fj by simp
  from rs inv cM bnb nbE hr fj1 obtain t1 where r1: "reserve cfg f t nb = Some (Inr t1)"
    unfolding reserve_returns_def by blast
  have ok: "table_ok cfg t" using inv by (simp add: table_ok_def)
  have "reserve_spec cfg f" using all_specs[of cfg f] by simp
  with ok r1 have rp: "rehash_post cfg t t1" and nb1: "nb \<le> bucket_count t1"
    unfolding reserve_spec_def by blast+
  from rp have inv1: "table_inv cfg t1" and en1: "entries t1 = entries t"
    and c1: "element_count t1 = element_count t" and dn1: "table_dense t1"
    by (simp_all add: rehash_post_def)
  from inv obtain a where a: "bucket_count t = 2 ^ a" by (elim table_invE)
  from inv1 obtain b where b: "bucket_count t1 = 2 ^ b" by (elim table_invE)
  have "bucket_count t < bucket_count t1" using bnb nb1 by simp
  then have "2 * bucket_count t \<le> bucket_count t1" unfolding a b by (rule pow2_less_double)
  from headroom_double[OF hr jpos this] have hr1: "headroom E t1 (j - 1)" .
  have fj2: "2 * (j - 1) \<le> f" using fj by simp
  have nk1: "k \<notin> fst ` entries t1" using nk en1 by simp
  have cM1: "element_count t1 < M" using cM c1 by simp
  have lt1: "element_count t1 < bucket_count t1" using cnb nb1 c1 by simp
  from pl inv1 dn1 nk1 cM1 lt1 hr1 fj2
  obtain r where "try_insert_at cfg f t1 k v (find_hm cfg t1 k) = Some (Inr r)"
    unfolding try_insert_at_returns_def by blast
  with r1 have "try_insert_resize cfg (Suc f) t k v nb = Some (Inr r)" by simp
  then show "\<exists>r. try_insert_resize cfg (Suc f) t k v nb = Some (Inr r)" ..
qed

lemma ret_reserve:
  assumes gb: "grow_bound cfg M E" and rt: "resize_table_returns cfg M E f"
  shows "reserve_returns cfg M E f"
  unfolding reserve_returns_def
proof (intro allI impI)
  fix t nb j
  assume inv: "table_inv cfg t" and cM: "element_count t < M"
    and bnb: "bucket_count t < nb" and nbE: "nb \<le> 2 ^ E"
    and hr: "headroom E t j" and fj: "2 * j \<le> f + 1"
  have jpos: "0 < j" using hr bnb nbE by (rule headroom_pos)
  from nbE grow_bound_le[OF gb] have nb62: "nb \<le> 2 ^ 62" by simp
  then have n63: "nb < 2 ^ 63" by simp
  from nb62 have small: "\<not> size_max div 2 \<le> nb" by (simp add: size_max_def)
  from inv obtain e where e: "bucket_count t = 2 ^ e" "e \<le> 63" by (elim table_invE)
  from bucket_limit_loop_pow2[OF n63 e(2)] obtain e' where e': "e \<le> e'" "e' \<le> 63"
    "bucket_limit_loop (2 ^ e) nb = 2 ^ e'" "nb \<le> 2 ^ e'" "e < e' \<longrightarrow> 2 ^ e' < 2 * nb"
    by blast
  have "(2::nat) ^ e < 2 ^ e'" using bnb e'(4) unfolding e(1) by (rule less_le_trans)
  then have ee: "e < e'" by (simp add: power_strict_increasing_iff)
  with e'(5) nbE have "(2::nat) ^ e' < 2 * 2 ^ E" by simp
  then have "(2::nat) ^ e' < 2 ^ Suc E" by (simp only: power_Suc)
  then have "e' < Suc E" by (simp only: power_strict_increasing_iff one_less_numeral_iff semiring_norm)
  then have e'E: "e' \<le> E" by simp
  have "(2::nat) ^ E \<le> 2 ^ (e + j)" using hr by (simp add: headroom_def e(1) power_add)
  then have "E \<le> e + j" by (simp add: power_increasing_iff)
  with ee jpos have hr': "E \<le> e' + (j - 1)" by simp
  have fj': "2 * (j - 1) + 1 \<le> f" using fj jpos by simp
  from rt inv cM e'E hr' fj' obtain t' where "resize_table cfg f t (2 ^ e') = Some (Inr t')"
    unfolding resize_table_returns_def by blast
  with small e(1) e'(3) have "reserve cfg f t nb = Some (Inr t')"
    by (simp add: reserve.simps)
  then show "\<exists>t'. reserve cfg f t nb = Some (Inr t')" by blast
qed

lemma ret_reinsert:
  assumes ti: "try_insert_returns cfg M E f"
  shows "reinsert_returns cfg M E f"
  unfolding reinsert_returns_def
proof (intro allI impI)
  fix t :: "('a, 'b) HashMap" and kvs :: "('a \<times> 'b) list" and j
  assume "table_inv cfg t" "table_dense t" "distinct (map fst kvs)"
    "fst ` set kvs \<inter> fst ` entries t = {}" "element_count t + length kvs \<le> M"
    "headroom E t j" and fj: "2 * j \<le> f"
  then show "\<exists>t'. reinsert cfg f t kvs = Some (Inr t')"
  proof (induction kvs arbitrary: t)
    case Nil
    then show ?case by simp
  next
    case (Cons kv kvs)
    obtain k v where kv: "kv = (k, v)" by (cases kv)
    have cM: "element_count t < M" using Cons.prems(5) by simp
    from ti Cons.prems(1,2) cM Cons.prems(6) fj
    obtain r where r1: "try_insert cfg f t k v = Some (Inr r)"
      unfolding try_insert_returns_def by blast
    obtain t1 it ins where r: "r = (t1, it, ins)" by (cases r)
    have nk: "k \<notin> fst ` entries t" using Cons.prems(4) kv by auto
    have ok: "table_ok cfg t" using Cons.prems(1) by (simp add: table_ok_def)
    have "try_insert_spec cfg f" using all_specs[of cfg f] by simp
    with ok r1 nk have ip: "insert_post cfg t k v (fst r)"
      unfolding try_insert_spec_def by (metis (full_types))
    then have inv1: "table_inv cfg t1" and en: "entries t1 = insert (k, v) (entries t)"
      and cn: "element_count t1 = Suc (element_count t)"
      and bc: "bucket_count t \<le> bucket_count t1"
      and dn: "table_dense t1"
      using Cons.prems(2) by (simp_all add: insert_post_def r)
    have d1: "distinct (map fst kvs)" using Cons.prems(3) by simp
    have d2: "fst ` set kvs \<inter> fst ` entries t1 = {}"
      using Cons.prems(3,4) kv en by auto
    have c1: "element_count t1 + length kvs \<le> M" using Cons.prems(5) cn by simp
    have h1: "headroom E t1 j" using Cons.prems(6) bc by (rule headroom_mono)
    from Cons.IH[OF inv1 dn d1 d2 c1 h1 fj] obtain t' where "reinsert cfg f t1 kvs = Some (Inr t')"
      by blast
    with r1 r kv show ?case by simp
  qed
qed

lemma ret_resize_table:
  assumes gb: "grow_bound cfg M E" and ri: "reinsert_returns cfg M E f"
  shows "resize_table_returns cfg M E (Suc f)"
  unfolding resize_table_returns_def
proof (intro allI impI)
  fix t e j
  assume inv: "table_inv cfg t" and cM: "element_count t < M" and eE: "e \<le> E"
    and Eej: "E \<le> e + j" and fj: "2 * j + 1 \<le> Suc f"
  have e63: "e \<le> 63" using eE gb by (simp add: grow_bound_def)
  note fr = fresh_table_inv[OF e63, of cfg]
  have bcf: "bucket_count (fresh_table cfg (2 ^ e)) = 2 ^ e"
    and cf: "element_count (fresh_table cfg (2 ^ e)) = 0"
    by (simp_all add: fresh_table_def)
  have fj': "2 * j \<le> f" using fj by simp
  have "(2::nat) ^ E \<le> 2 ^ (e + j)" using Eej by (rule power_increasing) simp
  then have hrf: "headroom E (fresh_table cfg (2 ^ e)) j"
    by (simp add: headroom_def bcf power_add)
  from inv obtain mt ct where t: "main_table t = Some mt" "collision_table t = Some ct"
    and n: "length mt = bucket_count t" "length ct = bucket_count t"
    and mok: "main_ok (hash_function cfg) (bucket_count t) mt"
    and cok: "coll_ok (hash_function cfg) (bucket_count t) mt ct"
    and kok: "keys_ok (bucket_count t) ct"
    and cnt: "count_ok (element_count t) (bucket_count t) mt ct"
    by (elim table_invE)
  have ce: "element_count t = length (main_entries mt) + length (collision_entries ct)"
    using cnt n by (rule count_entries)
  have rspec: "reinsert_spec cfg f" using all_specs[of cfg f] by simp
  have dm: "distinct (map fst (main_entries mt))" using mok n(1) by (rule main_entries_distinct)
  have e1: "fst ` set (main_entries mt) \<inter> fst ` entries (fresh_table cfg (2 ^ e)) = {}"
    using fr(2) by simp
  have c1: "element_count (fresh_table cfg (2 ^ e)) + length (main_entries mt) \<le> M"
    using cM ce cf by simp
  from ri fr(1) fr(3) dm e1 c1 hrf fj' obtain t1 where
    r1: "reinsert cfg f (fresh_table cfg (2 ^ e)) (main_entries mt) = Some (Inr t1)"
    unfolding reinsert_returns_def by blast
  from rspec fr(1) dm e1 r1
  have p1: "table_inv cfg t1 \<and> entries t1 = entries (fresh_table cfg (2 ^ e)) \<union> set (main_entries mt) \<and>
     element_count t1 = element_count (fresh_table cfg (2 ^ e)) + length (main_entries mt) \<and>
     bucket_count (fresh_table cfg (2 ^ e)) \<le> bucket_count t1 \<and>
     (table_dense (fresh_table cfg (2 ^ e)) \<longrightarrow> table_dense t1)"
    unfolding reinsert_spec_def by blast
  then have inv1: "table_inv cfg t1" and en1: "entries t1 = set (main_entries mt)"
    and cn1: "element_count t1 = length (main_entries mt)"
    and bc1: "bucket_count (fresh_table cfg (2 ^ e)) \<le> bucket_count t1" and dn1: "table_dense t1"
    using fr(2,3) cf by simp_all
  have dc: "distinct (map fst (collision_entries ct))"
    using kok n(2) by (rule collision_entries_distinct)
  have e2: "fst ` set (collision_entries ct) \<inter> fst ` entries t1 = {}"
    using main_collision_disjoint[OF mok cok n] en1 by simp
  have c2: "element_count t1 + length (collision_entries ct) \<le> M" using cM ce cn1 by simp
  have h2: "headroom E t1 j" using hrf bc1 by (rule headroom_mono)
  from ri inv1 dn1 dc e2 c2 h2 fj' obtain t' where
    r2: "reinsert cfg f t1 (collision_entries ct) = Some (Inr t')"
    unfolding reinsert_returns_def by blast
  from t r1 r2 have "resize_table cfg (Suc f) t (2 ^ e) = Some (Inr t')"
    by (simp add: pow2_and_size_dec)
  then show "\<exists>t'. resize_table cfg (Suc f) t (2 ^ e) = Some (Inr t')" by blast
qed

lemma ret_try_insert:
  assumes gb: "grow_bound cfg M E" and rg: "try_insert_resize_returns cfg M E f"
    and pl: "try_insert_at_returns cfg M E f"
  shows "try_insert_returns cfg M E f"
  unfolding try_insert_returns_def
proof (intro allI impI)
  fix t k v j
  assume inv: "table_inv cfg t" and dn: "table_dense t" and cM: "element_count t < M"
    and hr: "headroom E t j" and fj: "2 * j \<le> f"
  from inv have mt: "main_table t \<noteq> None" by (elim table_invE) simp
  show "\<exists>r. try_insert cfg f t k v = Some (Inr r)"
  proof (cases "k \<in> fst ` entries t")
    case True
    then have "value_ptr (find_hm cfg t k) \<noteq> None" using find_hm_found_iff[OF inv] by simp
    with mt have "try_insert cfg f t k v = Some (Inr (t, find_hm cfg t k, False))"
      by (auto simp: try_insert.simps Let_def)
    then show ?thesis by blast
  next
    case nk: False
    then have vp: "value_ptr (find_hm cfg t k) = None"
      using find_hm_found_iff[OF inv, of k] by auto
    show ?thesis
    proof (cases "bucket_count t < element_count t + 1")
      case True
      with mt vp have eq: "try_insert cfg f t k v
          = try_insert_resize cfg f t k v (element_count t + 1)"
        by (auto simp: try_insert.simps Let_def)
      have "element_count t + 1 \<le> 2 ^ E" using gb cM unfolding grow_bound_def by linarith
      with rg inv nk cM True hr fj
      have "\<exists>r. try_insert_resize cfg f t k v (element_count t + 1) = Some (Inr r)"
        unfolding try_insert_resize_returns_def by (metis less_add_one)
      with eq show ?thesis by simp
    next
      case False
      with mt vp have eq: "try_insert cfg f t k v
          = try_insert_at cfg f t k v (find_hm cfg t k)"
        by (auto simp: try_insert.simps Let_def)
      from False have lt: "element_count t < bucket_count t" by simp
      from pl inv dn nk cM lt hr fj
      have "\<exists>r. try_insert_at cfg f t k v (find_hm cfg t k) = Some (Inr r)"
        unfolding try_insert_at_returns_def by blast
      with eq show ?thesis by simp
    qed
  qed
qed

text \<open>With fuel for twice the head room, all six functions return.\<close>

lemma all_return:
  assumes gb: "grow_bound cfg M E"
  shows "resize_table_returns cfg M E f \<and> reserve_returns cfg M E f \<and>
   try_insert_resize_returns cfg M E f \<and> try_insert_at_returns cfg M E f \<and>
   try_insert_returns cfg M E f \<and> reinsert_returns cfg M E f"
proof (induction f)
  case 0
  have rt: "resize_table_returns cfg M E 0" by (simp add: resize_table_returns_def)
  have rg: "try_insert_resize_returns cfg M E 0"
    unfolding try_insert_resize_returns_def
  proof (intro allI impI)
    fix t :: "('a, 'b) HashMap" and k :: 'a and v :: 'b and nb j
    assume "bucket_count t < nb" "nb \<le> 2 ^ E" "headroom E t j" "2 * j \<le> (0::nat)"
    with headroom_pos[of E t j nb] have False by simp
    then show "\<exists>r. try_insert_resize cfg 0 t k v nb = Some (Inr r)" ..
  qed
  note rs = ret_reserve[OF gb rt]
  note pl = ret_try_insert_at[OF gb rg]
  note ti = ret_try_insert[OF gb rg pl]
  note ri = ret_reinsert[OF ti]
  from rt rs rg pl ti ri show ?case by simp
next
  case (Suc f)
  then have rt: "resize_table_returns cfg M E (Suc f)" using ret_resize_table[OF gb] by simp
  from Suc have rg: "try_insert_resize_returns cfg M E (Suc f)"
    using ret_try_insert_resize[OF gb] by simp
  note rs = ret_reserve[OF gb rt]
  note pl = ret_try_insert_at[OF gb rg]
  note ti = ret_try_insert[OF gb rg pl]
  note ri = ret_reinsert[OF ti]
  from rt rs rg pl ti ri show ?case by simp
qed

text \<open>The bound used below: up to \<open>2^60\<close> elements, and no growth at \<open>2^62\<close> buckets.\<close>

lemma grow_bound_62:
  assumes "M \<le> 2 ^ 60"
  shows "grow_bound cfg M 62"
proof -
  have "4194304 div sizeof_MainEntry cfg \<le> 4194304" by (rule div_le_dividend)
  moreover have "(4194304::nat) \<le> 2 ^ 62" by simp
  ultimately have "4194304 div sizeof_MainEntry cfg \<le> 2 ^ 62" by (rule le_trans)
  with assms show ?thesis by (simp add: grow_bound_def)
qed

lemma headroom_any: "table_inv cfg t \<Longrightarrow> headroom E t E"
proof -
  assume "table_inv cfg t"
  then have "1 \<le> bucket_count t" using table_inv_pos[of cfg t] by simp
  then have "1 * 2 ^ E \<le> bucket_count t * 2 ^ E" by (rule mult_le_mono1)
  then show ?thesis by (simp add: headroom_def)
qed

lemma reserve_unallocated:
  assumes "unallocated t"
  shows "reserve cfg (Suc f) t 16 = Some (Inr (fresh_table cfg 16))"
proof -
  have "bucket_limit_loop 1 16 = 16" by (simp add: bucket_limit_loop.simps)
  moreover have "(16::nat) AND size_dec 16 = 0" by (simp add: size_dec_def)
  ultimately show ?thesis
    using assms by (simp add: reserve.simps unallocated_def size_max_def)
qed

lemma fresh_16:
  shows "table_inv cfg (fresh_table cfg 16)" and "entries (fresh_table cfg 16) = {}"
    and "table_dense (fresh_table cfg 16)"
proof -
  have e: "(16::nat) = 2 ^ 4" by simp
  show "table_inv cfg (fresh_table cfg 16)" unfolding e by (rule fresh_table_inv) simp
  show "entries (fresh_table cfg 16) = {}" unfolding e by (rule fresh_table_inv) simp
  show "table_dense (fresh_table cfg 16)" unfolding e by (rule fresh_table_inv) simp
qed

lemma try_insert_first:
  assumes un: "unallocated t" and gb: "grow_bound cfg M E" and M: "0 < M"
    and f: "2 * E \<le> f" "0 < f"
  shows "\<exists>r. try_insert cfg f t k v = Some (Inr r)"
proof -
  obtain f' where f': "f = Suc f'" using f(2) by (cases f) auto
  let ?t = "fresh_table cfg 16"
  have rs: "reserve cfg f t 16 = Some (Inr ?t)" unfolding f' using un by (rule reserve_unallocated)
  have nk: "k \<notin> fst ` entries ?t" by (simp add: fresh_16)
  then have vp: "value_ptr (find_hm cfg ?t k) = None"
    using find_hm_found_iff[OF fresh_16(1)[of cfg], of k] by auto
  have bc: "bucket_count ?t = 16" "element_count ?t = 0" by (simp_all add: fresh_table_def)
  from un rs vp bc have eq: "try_insert cfg f t k v = try_insert_at cfg f ?t k v (find_hm cfg ?t k)"
    by (simp add: try_insert.simps unallocated_def Let_def)
  have rr: "try_insert_at_returns cfg M E f" using all_return[OF gb, of f] by simp
  have hr: "headroom E ?t E" using fresh_16(1) by (rule headroom_any)
  have inv: "table_inv cfg ?t" and dn: "table_dense ?t" by (rule fresh_16)+
  have cM: "element_count ?t < M" and lt: "element_count ?t < bucket_count ?t"
    using M bc by simp_all
  from rr inv dn nk cM lt hr f(1)
  have "\<exists>r. try_insert_at cfg f ?t k v (find_hm cfg ?t k) = Some (Inr r)"
    unfolding try_insert_at_returns_def by blast
  with eq show ?thesis by simp
qed

text \<open>
  An insertion into a table without holes returns, given fuel for the doublings up to the
  bound.
\<close>

lemma try_insert_returns_ok:
  assumes ok: "table_ok cfg t" and dn: "table_dense t" and gb: "grow_bound cfg M E"
    and cM: "element_count t < M" and f: "2 * E \<le> f" "0 < f"
  shows "\<exists>r. try_insert cfg f t k v = Some (Inr r)"
  using ok
proof (cases rule: table_ok_cases)
  case unalloc
  from cM have "0 < M" by simp
  from try_insert_first[OF unalloc(1) gb this f] show ?thesis .
next
  case alloc
  have "try_insert_returns cfg M E f" using all_return[OF gb, of f] by simp
  with alloc(1) dn cM headroom_any[OF alloc(1), of E] f(1) show ?thesis
    unfolding try_insert_returns_def by blast
qed

lemma count_le_twice:
  assumes "table_inv cfg t"
  shows "element_count t \<le> 2 * bucket_count t"
proof -
  from assms obtain mt ct where "main_table t = Some mt" "collision_table t = Some ct"
    and cnt: "count_ok (element_count t) (bucket_count t) mt ct"
    by (elim table_invE)
  have "card {i. i < bucket_count t \<and> mvalid (mt ! i)} \<le> card {..<bucket_count t}"
    by (rule card_mono) auto
  moreover have "card {j. j < bucket_count t \<and> cvalid (ct ! j)} \<le> card {..<bucket_count t}"
    by (rule card_mono) auto
  ultimately show ?thesis using cnt by (simp add: count_ok_def)
qed

text \<open>
  An insertion of a new key into any well-formed table of at most \<open>2^58\<close> buckets returns:
  the first growth leaves a table without holes.
\<close>

lemma try_insert_returns_any:
  assumes inv: "table_inv cfg t" and nk: "k \<notin> fst ` entries t"
    and small: "bucket_count t \<le> 2 ^ 58" and f: "124 \<le> f"
  shows "\<exists>r. try_insert cfg f t k v = Some (Inr r)"
proof -
  define M where "M = element_count t + 1"
  have c: "element_count t \<le> 2 ^ 59" using count_le_twice[OF inv] small by simp
  then have "M \<le> 2 ^ 60" by (simp add: M_def)
  then have gb: "grow_bound cfg M 62" by (rule grow_bound_62)
  have cM: "element_count t < M" by (simp add: M_def)
  have hr: "headroom 62 t 62" using inv by (rule headroom_any)
  have fj: "2 * 62 \<le> f" using f by simp
  have rg: "try_insert_resize_returns cfg M 62 f" using all_return[OF gb, of f] by simp
  from inv have mt: "main_table t \<noteq> None" by (elim table_invE) simp
  from nk have vp: "value_ptr (find_hm cfg t k) = None"
    using find_hm_found_iff[OF inv, of k] by auto
  show ?thesis
  proof (cases "bucket_count t < element_count t + 1")
    case True
    with mt vp have eq: "try_insert cfg f t k v
        = try_insert_resize cfg f t k v (element_count t + 1)"
      by (auto simp: try_insert.simps Let_def)
    have "element_count t + 1 \<le> 2 ^ 62" using c by simp
    with rg inv nk cM True hr fj
    have "\<exists>r. try_insert_resize cfg f t k v (element_count t + 1) = Some (Inr r)"
      unfolding try_insert_resize_returns_def by (metis less_add_one)
    with eq show ?thesis by simp
  next
    case False
    with mt vp have eq: "try_insert cfg f t k v = try_insert_at cfg f t k v (find_hm cfg t k)"
      by (auto simp: try_insert.simps Let_def)
    from False have lt: "element_count t < bucket_count t" by simp
    from try_insert_at_progress[OF inv nk lt, of f v] show ?thesis
    proof
      assume "\<exists>r. try_insert_at cfg f t k v (find_hm cfg t k) = Some (Inr r)"
      with eq show ?thesis by simp
    next
      assume g: "try_insert_at cfg f t k v (find_hm cfg t k)
         = try_insert_resize cfg f t k v (bucket_count t + 1) \<and>
       (table_dense t \<longrightarrow> bucket_count t < 4 * element_count t
          \<or> bucket_count t < 4194304 div sizeof_MainEntry cfg)"
      have nb: "bucket_count t + 1 \<le> 2 ^ 62" using small by simp
      from rg inv nk cM lt nb hr fj
      have "\<exists>r. try_insert_resize cfg f t k v (bucket_count t + 1) = Some (Inr r)"
        unfolding try_insert_resize_returns_def by (metis less_add_one trans_less_add1)
      with g eq show ?thesis by simp
    qed
  qed
qed

text \<open>A run of insertions of new, distinct keys returns, and stores exactly what it was given.\<close>

lemma run_inserts_return:
  assumes gb: "grow_bound cfg M E" and f: "2 * E \<le> f" "0 < f"
  shows "table_ok cfg t \<Longrightarrow> table_dense t \<Longrightarrow> distinct (map fst kvs) \<Longrightarrow>
    fst ` set kvs \<inter> fst ` entries t = {} \<Longrightarrow> element_count t + length kvs \<le> M \<Longrightarrow>
    \<exists>t'. run_operations cfg f t (map (\<lambda>(k, v). Insert k v) kvs) = Some (Inr t') \<and>
      table_ok cfg t' \<and> entries t' = entries t \<union> set kvs \<and>
      element_count t' = element_count t + length kvs"
proof (induction kvs arbitrary: t)
  case Nil
  then show ?case by simp
next
  case (Cons kv kvs)
  obtain k v where kv: "kv = (k, v)" by (cases kv)
  have cM: "element_count t < M" using Cons.prems(5) by simp
  from try_insert_returns_ok[OF Cons.prems(1,2) gb cM f, of k v]
  obtain r where r1: "try_insert cfg f t k v = Some (Inr r)" by blast
  obtain t1 it ins where r: "r = (t1, it, ins)" by (cases r)
  have nk: "k \<notin> fst ` entries t" using Cons.prems(4) kv by auto
  have "try_insert_spec cfg f" using all_specs[of cfg f] by simp
  with Cons.prems(1) r1 nk have ip: "insert_post cfg t k v (fst r)"
    unfolding try_insert_spec_def by (metis (full_types))
  then have inv1: "table_inv cfg t1" and en: "entries t1 = insert (k, v) (entries t)"
    and cn: "element_count t1 = Suc (element_count t)" and dn: "table_dense t1"
    using Cons.prems(2) by (simp_all add: insert_post_def r)
  have ok1: "table_ok cfg t1" using inv1 by (simp add: table_ok_def)
  have d1: "distinct (map fst kvs)" using Cons.prems(3) by simp
  have d2: "fst ` set kvs \<inter> fst ` entries t1 = {}" using Cons.prems(3,4) kv en by auto
  have c1: "element_count t1 + length kvs \<le> M" using Cons.prems(5) cn by simp
  from Cons.IH[OF ok1 dn d1 d2 c1] obtain t' where
    t': "run_operations cfg f t1 (map (\<lambda>(k, v). Insert k v) kvs) = Some (Inr t')"
      "table_ok cfg t'" "entries t' = entries t1 \<union> set kvs"
      "element_count t' = element_count t1 + length kvs" by blast
  have "run_operations cfg f t (map (\<lambda>(k, v). Insert k v) (kv # kvs)) = Some (Inr t')"
    using r1 r t'(1) by (simp add: kv apply_operation_def)
  moreover have "entries t' = entries t \<union> set (kv # kvs)" using t'(3) en kv by auto
  moreover have "element_count t' = element_count t + length (kv # kvs)" using t'(4) cn by simp
  ultimately show ?case using t'(2) by blast
qed

text \<open>Fuel written as a numeral.\<close>

lemma try_insert_resize_numeral_eval:
  "try_insert_resize cfg (numeral n) t k v nb =
     (case reserve cfg (pred_numeral n) t nb of
        None \<Rightarrow> None
      | Some (Inl e) \<Rightarrow> Some (Inl e)
      | Some (Inr t') \<Rightarrow> try_insert_at cfg (pred_numeral n) t' k v (find_hm cfg t' k))"
  by (simp add: numeral_eq_Suc)

lemma resize_table_numeral_eval:
  "resize_table cfg (numeral n) t new_bucket_count =
     (if new_bucket_count AND size_dec new_bucket_count \<noteq> 0 then Some (Inl Abort)
      else
        case main_table t of
          None \<Rightarrow> Some (Inr (fresh_table cfg new_bucket_count))
        | Some old_main_table \<Rightarrow>
            (case reinsert cfg (pred_numeral n) (fresh_table cfg new_bucket_count)
                    (main_entries old_main_table) of
               None \<Rightarrow> None
             | Some (Inl e) \<Rightarrow> Some (Inl Abort)
             | Some (Inr t1) \<Rightarrow>
                 (case reinsert cfg (pred_numeral n) t1 (collision_entries (collT t)) of
                    None \<Rightarrow> None
                  | Some (Inl e) \<Rightarrow> Some (Inl Abort)
                  | Some (Inr t2) \<Rightarrow> Some (Inr t2))))"
  by (simp add: numeral_eq_Suc)

text \<open>
  C1.  Take any list of key-value pairs with pairwise distinct keys, at most \<open>2^60\<close> of
  them, and insert them one after the other into the empty map.  With fuel 124 or more
  (two units for each of the at most 62 doublings) the run returns a table; \<open>find\<close> of
  every inserted key is not the end and reads the value inserted with the key; and
  \<open>size()\<close> is the number of pairs.  The list may be long enough to grow the table any
  number of times.
\<close>

theorem round_trip:
  assumes "distinct (map fst kvs)" and "length kvs \<le> 2 ^ 60" and "124 \<le> f"
  shows "\<exists>t. run_operations cfg f empty_map (map (\<lambda>(k, v). Insert k v) kvs) = Some (Inr t) \<and>
    (\<forall>(k, v) \<in> set kvs. \<not> iter_eq (find_hm cfg t k) end_hm \<and> lookup cfg t k = Some v) \<and>
    size_hm t = length kvs"
proof -
  have gb: "grow_bound cfg (length kvs) 62" using assms(2) by (rule grow_bound_62)
  have f: "2 * 62 \<le> f" "0 < f" using assms(3) by simp_all
  have dn: "table_dense empty_map" by (simp add: table_dense_def empty_map_def)
  have en: "entries empty_map = {}" by (simp add: entries_def empty_map_def)
  have c0: "element_count (empty_map :: ('a, 'b) HashMap) = 0" by (simp add: empty_map_def)
  have dj: "fst ` set kvs \<inter> fst ` entries (empty_map :: ('a, 'b) HashMap) = {}"
    by (simp add: en)
  have cl: "element_count (empty_map :: ('a, 'b) HashMap) + length kvs \<le> length kvs"
    by (simp add: c0)
  from run_inserts_return[OF gb f empty_map_ok dn assms(1) dj cl]
  obtain t where t: "run_operations cfg f empty_map (map (\<lambda>(k, v). Insert k v) kvs) = Some (Inr t)"
    "table_ok cfg t" "entries t = set kvs" "element_count t = length kvs"
    by (auto simp: en c0)
  have "\<not> iter_eq (find_hm cfg t k) end_hm \<and> lookup cfg t k = Some v" if "(k, v) \<in> set kvs" for k v
  proof -
    from that t(3) have kv: "(k, v) \<in> entries t" by simp
    with t(2) have inv: "table_inv cfg t"
      by (auto simp: table_ok_def unallocated_def entries_def)
    from find_hm_present[OF inv kv] have "value_ptr (find_hm cfg t k) \<noteq> None" by simp
    moreover from kv have "lookup cfg t k = Some v" using lookup_iff[OF inv] by simp
    ultimately show ?thesis by (simp add: iter_eq_def end_hm_def)
  qed
  with t(1,4) show ?thesis by (auto simp: size_hm_def)
qed

theorem round_trip_witness:
  "distinct (map fst [(0::nat, 100::nat), (1, 101), (2, 102), (3, 103), (16, 116), (32, 132)]) \<and>
   length [(0::nat, 100::nat), (1, 101), (2, 102), (3, 103), (16, 116), (32, 132)] \<le> 2 ^ 60 \<and>
   (\<exists>t. run_operations cfg_nat 124 empty_map
           (map (\<lambda>(k, v). Insert k v) [(0, 100), (1, 101), (2, 102), (3, 103), (16, 116), (32, 132)])
          = Some (Inr t) \<and>
        get_bucket_count t = 32 \<and>
        \<not> iter_eq (find_hm cfg_nat t 0) end_hm \<and> lookup cfg_nat t 0 = Some 100 \<and>
        \<not> iter_eq (find_hm cfg_nat t 16) end_hm \<and> lookup cfg_nat t 16 = Some 116 \<and>
        \<not> iter_eq (find_hm cfg_nat t 32) end_hm \<and> lookup cfg_nat t 32 = Some 132 \<and>
        size_hm t = 6)"
proof -
  let ?kvs = "[(0::nat, 100::nat), (1, 101), (2, 102), (3, 103), (16, 116), (32, 132)]"
  have d: "distinct (map fst ?kvs)" by simp
  have l: "length ?kvs \<le> 2 ^ 60" by simp
  have f: "(124::nat) \<le> 124" by simp
  from round_trip[OF d l f, of cfg_nat] obtain t where
    t: "run_operations cfg_nat 124 empty_map (map (\<lambda>(k, v). Insert k v) ?kvs) = Some (Inr t)"
    and r: "\<forall>(k, v) \<in> set ?kvs. \<not> iter_eq (find_hm cfg_nat t k) end_hm \<and> lookup cfg_nat t k = Some v"
    and s: "size_hm t = length ?kvs"
    by blast
  have "\<exists>t'. run_operations cfg_nat 124 empty_map (map (\<lambda>(k, v). Insert k v) ?kvs) = Some (Inr t')
      \<and> get_bucket_count t' = 32"
    by (simp add: hm_eval cfg_nat_def try_insert_resize_numeral_eval resize_table_numeral_eval
        get_bucket_count_def)
  with t have b: "get_bucket_count t = 32" by auto
  from r have "\<not> iter_eq (find_hm cfg_nat t 0) end_hm \<and> lookup cfg_nat t 0 = Some 100 \<and>
        \<not> iter_eq (find_hm cfg_nat t 16) end_hm \<and> lookup cfg_nat t 16 = Some 116 \<and>
        \<not> iter_eq (find_hm cfg_nat t 32) end_hm \<and> lookup cfg_nat t 32 = Some 132"
    by simp
  with d l t b s show ?thesis by (intro conjI exI[of _ t]) simp_all
qed

text \<open>
  C4, amended.  Take a table reached from the empty map by inserts and erases, that has
  storage and at most \<open>2^58\<close> buckets, and a key that it does not hold and whose home slot
  is taken, so that the insertion needs an overflow slot.  With fuel 124 or more,
  \<open>try_insert\<close> returns and has inserted the key, and the bucket count has grown exactly
  when the table was full (\<open>bucket_count < element_count + 1\<close>), or the table is small
  (\<open>bucket_count < 2^20 / sizeof(MainEntry)\<close>) and below four times the live count,
  whatever the old span of the bucket, or the new span is at least 4 while
  \<open>bucket_count < 2^22 / sizeof(MainEntry)\<close>, or the new span is at least half the bucket
  count.  When it grows, the bucket count at least doubles.
\<close>

theorem growth_policy:
  assumes "run_operations cfg f0 empty_map ops = Some (Inr t)"
    and "main_table t \<noteq> None"
    and "value_ptr (find_hm cfg t k) = None"
    and "\<not> isInvalid (collision_index (find_hm cfg t k))"
    and "bucket_count t \<le> 2 ^ 58"
    and "124 \<le> f"
  shows "\<exists>t' it. try_insert cfg f t k v = Some (Inr (t', it, True)) \<and>
    (bucket_count t < bucket_count t' \<longleftrightarrow> growth_condition cfg t k) \<and>
    (growth_condition cfg t k \<longrightarrow> 2 * bucket_count t \<le> bucket_count t')"
proof -
  from run_operations_ok[OF empty_map_ok assms(1)] assms(2)
  have inv: "table_inv cfg t" by (auto simp: table_ok_def unallocated_def)
  then have ok: "table_ok cfg t" by (simp add: table_ok_def)
  from assms(3) have nk: "k \<notin> fst ` entries t" using find_hm_found_iff[OF inv, of k] by simp
  from try_insert_returns_any[OF inv nk assms(5,6), of v]
  obtain r where r: "try_insert cfg f t k v = Some (Inr r)" by blast
  obtain t' it ins where r': "r = (t', it, ins)" by (cases r)
  have "try_insert_spec cfg f" using all_specs[of cfg f] by simp
  with ok r nk have "snd (snd r)" unfolding try_insert_spec_def by (metis (full_types))
  with r r' have ti: "try_insert cfg f t k v = Some (Inr (t', it, True))" by simp
  from try_insert_ok(1)[OF ok ti] have inv': "table_inv cfg t'" by simp
  note g = try_insert_growth[OF inv assms(3,4) ti]
  have "2 * bucket_count t \<le> bucket_count t'" if "bucket_count t < bucket_count t'"
  proof -
    from inv obtain a where a: "bucket_count t = 2 ^ a" by (elim table_invE)
    from inv' obtain b where b: "bucket_count t' = 2 ^ b" by (elim table_invE)
    from that show ?thesis unfolding a b by (rule pow2_less_double)
  qed
  with g ti show ?thesis by blast
qed

theorem growth_policy_witness:
  "run_operations cfg_nat (Suc (Suc 0)) empty_map
      [Insert 0 100, Insert 1 101, Insert 2 102, Insert 3 103, Insert 16 116]
     = Some (Inr growth_example) \<and>
   main_table growth_example \<noteq> None \<and>
   value_ptr (find_hm cfg_nat growth_example 32) = None \<and>
   \<not> isInvalid (collision_index (find_hm cfg_nat growth_example 32)) \<and>
   bucket_count growth_example \<le> 2 ^ 58 \<and>
   growth_condition cfg_nat growth_example 32 \<and>
   (\<exists>t' it. try_insert cfg_nat 124 growth_example 32 132 = Some (Inr (t', it, True)) \<and>
      bucket_count growth_example < bucket_count t' \<and>
      2 * bucket_count growth_example \<le> bucket_count t')"
proof -
  define P where "P t \<longleftrightarrow> main_table t \<noteq> None \<and>
   value_ptr (find_hm cfg_nat t 32) = None \<and>
   \<not> isInvalid (collision_index (find_hm cfg_nat t 32)) \<and>
   bucket_count t \<le> 2 ^ 58 \<and>
   growth_condition cfg_nat t 32" for t
  have "\<exists>t. run_operations cfg_nat (Suc (Suc 0)) empty_map
      [Insert 0 100, Insert 1 101, Insert 2 102, Insert 3 103, Insert 16 116] = Some (Inr t) \<and> P t"
    apply (simp add: hm_eval cfg_nat_def)
    apply (simp add: P_def hm_eval cfg_nat_def growth_condition_def probe_for_def)
    done
  then obtain t where t: "run_operations cfg_nat (Suc (Suc 0)) empty_map
      [Insert 0 100, Insert 1 101, Insert 2 102, Insert 3 103, Insert 16 116] = Some (Inr t)"
    and p: "main_table t \<noteq> None" "value_ptr (find_hm cfg_nat t 32) = None"
      "\<not> isInvalid (collision_index (find_hm cfg_nat t 32))" "bucket_count t \<le> 2 ^ 58"
      "growth_condition cfg_nat t 32"
    unfolding P_def by blast
  have g: "growth_example = t"
    by (simp only: growth_example_def t table_of_def option.case sum.case)
  have f: "(124::nat) \<le> 124" by simp
  from growth_policy[OF t p(1-4) f, of 132] p(5)
  have "\<exists>t' it. try_insert cfg_nat 124 t 32 132 = Some (Inr (t', it, True)) \<and>
      bucket_count t < bucket_count t' \<and> 2 * bucket_count t \<le> bucket_count t'"
    by blast
  with t p show ?thesis unfolding g by blast
qed

end
